theory Spec2Isabelle
  imports Main "HOL-Library.Char_ord" "HOL-Library.List_Lexorder" "HOL-Library.Product_Lexorder"
    "HOL-Library.Code_Target_Numeral"
begin

section \<open>Strings and character classes\<close>

text \<open>
  JavaScript strings are sequences of UTF-16 code units. They are modelled as
  \<^typ>\<open>string\<close>, each \<^typ>\<open>char\<close> read as one code unit in the range U+0000..U+00FF
  (ASCII and Latin-1). For these code units the character classes of a regular expression
  without the \<open>u\<close> flag are the following sets.
\<close>

definition isDigit :: "char \<Rightarrow> bool" where
  \<comment> \<open>the class \<open>\d\<close>\<close>
  "isDigit c \<longleftrightarrow> c \<in> set ''0123456789''"

definition isWordChar :: "char \<Rightarrow> bool" where
  \<comment> \<open>the class \<open>\w\<close>\<close>
  "isWordChar c \<longleftrightarrow>
     c \<in> set ''abcdefghijklmnopqrstuvwxyzABCDEFGHIJKLMNOPQRSTUVWXYZ0123456789_''"

definition isLineTerminator :: "char \<Rightarrow> bool" where
  \<comment> \<open>what \<open>.\<close> refuses and what opens a line for \<open>^\<close> under the \<open>m\<close> flag: LF and CR\<close>
  "isLineTerminator c \<longleftrightarrow> c = CHR 0x0A \<or> c = CHR 0x0D"

definition isSpace :: "char \<Rightarrow> bool" where
  \<comment> \<open>the class \<open>\s\<close>, which is also what \<open>trim\<close> removes: TAB, LF, VT, FF, CR, space, NBSP\<close>
  "isSpace c \<longleftrightarrow>
     c = CHR 0x09 \<or> c = CHR 0x0A \<or> c = CHR 0x0B \<or> c = CHR 0x0C \<or> c = CHR 0x0D
     \<or> c = CHR 0x20 \<or> c = CHR 0xA0"

definition toLowerChar :: "char \<Rightarrow> char" where
  \<comment> \<open>\<open>A\<close>..\<open>Z\<close> and the Latin-1 capitals U+00C0..U+00DE (without the sign U+00D7)
      move up by 32; every other code unit is its own lower case\<close>
  "toLowerChar c =
     (let n = (of_char c :: nat)
      in if (65 \<le> n \<and> n \<le> 90) \<or> (192 \<le> n \<and> n \<le> 222 \<and> n \<noteq> 215)
         then char_of (n + 32) else c)"

definition toLowerCase :: "string \<Rightarrow> string" where
  "toLowerCase s = map toLowerChar s"

definition trim :: "string \<Rightarrow> string" where
  "trim s = rev (dropWhile isSpace (rev (dropWhile isSpace s)))"

definition startsWith :: "string \<Rightarrow> string \<Rightarrow> bool" where
  \<comment> \<open>\<open>startsWith p s\<close>: the literal \<open>p\<close> matches at the start of \<open>s\<close>\<close>
  "startsWith p s \<longleftrightarrow> take (length p) s = p"

definition startsWithCI :: "string \<Rightarrow> string \<Rightarrow> bool" where
  \<comment> \<open>the lower-case literal \<open>p\<close> matches at the start of \<open>s\<close> under the \<open>i\<close> flag\<close>
  "startsWithCI p s \<longleftrightarrow> toLowerCase (take (length p) s) = p"

section \<open>Conventional commit classifier (parser.ts)\<close>

record RawCommit =
  hash :: string
  subject :: string
  body :: string

record ConventionalCommit =
  cc_hash :: string
  cc_type :: string
  cc_scope :: "string option"
  cc_subject :: string
  cc_raw :: string
  cc_breaking :: bool

text \<open>
  \<^verbatim>\<open>CONVENTIONAL_COMMIT_REGEX =
    /^(feat|fix|docs|style|refactor|perf|test|build|ci|chore|revert)(\([\w-]+\))?!?:\s*(.+)$/i\<close>

  The matcher below follows the backtracking search of the expression from left to right:
  each alternative and each optional or greedy part is tried in the order the engine
  tries it, and the first complete match wins.
\<close>

definition commit_types :: "string list" where
  "commit_types = [''feat'', ''fix'', ''docs'', ''style'', ''refactor'', ''perf'', ''test'',
     ''build'', ''ci'', ''chore'', ''revert'']"

definition dot_plus_end :: "string \<Rightarrow> string option" where
  \<comment> \<open>\<open>(.+)$\<close>: at least one code unit, none of them a line terminator, up to the end\<close>
  "dot_plus_end s = (if s \<noteq> [] \<and> (\<forall>c \<in> set s. \<not> isLineTerminator c) then Some s else None)"

fun match_description :: "string \<Rightarrow> string option" where
  \<comment> \<open>\<open>\s*(.+)$\<close>: the greedy \<open>\s*\<close> takes a white-space unit and goes on; when the rest
      then fails it gives the unit back and \<open>(.+)$\<close> starts here\<close>
  "match_description [] = None"
| "match_description (c # cs) =
     (if isSpace c
      then (case match_description cs of Some d \<Rightarrow> Some d | None \<Rightarrow> dot_plus_end (c # cs))
      else dot_plus_end (c # cs))"

definition match_colon :: "string \<Rightarrow> string option" where
  \<comment> \<open>\<open>:\s*(.+)$\<close>\<close>
  "match_colon s = (case s of c # r \<Rightarrow> if c = CHR '':'' then match_description r else None
                    | [] \<Rightarrow> None)"

definition match_bang_colon :: "string \<Rightarrow> string option" where
  \<comment> \<open>\<open>!?:\s*(.+)$\<close>: first with the \<open>!\<close>, then without\<close>
  "match_bang_colon s =
     (case (case s of c # r \<Rightarrow> if c = CHR ''!'' then match_colon r else None | [] \<Rightarrow> None) of
        Some d \<Rightarrow> Some d
      | None \<Rightarrow> match_colon s)"

definition isScopeChar :: "char \<Rightarrow> bool" where
  \<comment> \<open>the class \<open>[\w-]\<close>\<close>
  "isScopeChar c \<longleftrightarrow> isWordChar c \<or> c = CHR ''-''"

definition match_scope :: "string \<Rightarrow> (string \<times> string) option" where
  \<comment> \<open>\<open>\([\w-]+\)\<close> at the start of the string: the text between the parentheses and the
      rest. The greedy run is maximal: a shorter run is followed by a scope character,
      where the closing parenthesis cannot match.\<close>
  "match_scope s =
     (case s of
        [] \<Rightarrow> None
      | c # r \<Rightarrow>
          if c = CHR ''('' \<and> takeWhile isScopeChar r \<noteq> []
          then (case dropWhile isScopeChar r of
                  [] \<Rightarrow> None
                | d # r' \<Rightarrow> if d = CHR '')'' then Some (takeWhile isScopeChar r, r') else None)
          else None)"

definition match_after_type :: "string \<Rightarrow> (string option \<times> string) option" where
  \<comment> \<open>\<open>(\([\w-]+\))?!?:\s*(.+)$\<close>: first with the scope group, then without it\<close>
  "match_after_type s =
     (case (case match_scope s of
              Some (sc, r) \<Rightarrow> map_option (Pair (Some sc)) (match_bang_colon r)
            | None \<Rightarrow> None) of
        Some x \<Rightarrow> Some x
      | None \<Rightarrow> map_option (Pair None) (match_bang_colon s))"

fun match_types :: "string list \<Rightarrow> string \<Rightarrow> (string \<times> string option \<times> string) option" where
  \<comment> \<open>the alternatives of the type group in their order; the result is the matched type
      text, the scope without its parentheses and the description\<close>
  "match_types [] s = None"
| "match_types (t # ts) s =
     (case (if startsWithCI t s then match_after_type (drop (length t) s) else None) of
        Some (sc, d) \<Rightarrow> Some (take (length t) s, sc, d)
      | None \<Rightarrow> match_types ts s)"

definition bang_at :: "string \<Rightarrow> bool" where
  \<comment> \<open>\<open>(?:\))?!:\<close> at the start of the string\<close>
  "bang_at s \<longleftrightarrow>
     (case s of c # r \<Rightarrow> c = CHR '')'' \<and> startsWith ''!:'' r | [] \<Rightarrow> False) \<or> startsWith ''!:'' s"

fun hasBang :: "string \<Rightarrow> bool" where
  \<comment> \<open>\<^verbatim>\<open>/(?:\))?!:/.test(subject)\<close>: the expression is not anchored, every start is tried\<close>
  "hasBang [] = False"
| "hasBang (c # cs) = (bang_at (c # cs) \<or> hasBang cs)"

definition footer_at :: "string \<Rightarrow> bool" where
  \<comment> \<open>\<open>BREAKING[ -]CHANGE:\s*\<close> under the \<open>i\<close> flag at the start of the string\<close>
  "footer_at s \<longleftrightarrow>
     startsWithCI ''breaking'' s \<and>
     (case drop 8 s of
        [] \<Rightarrow> False
      | c # r \<Rightarrow> (c = CHR '' '' \<or> c = CHR ''-'') \<and> startsWithCI ''change:'' r)"

fun footer_from :: "bool \<Rightarrow> string \<Rightarrow> bool" where
  \<comment> \<open>the search for the footer; the flag says whether the position is a line start\<close>
  "footer_from start [] = False"
| "footer_from start (c # cs) =
     ((start \<and> footer_at (c # cs)) \<or> footer_from (isLineTerminator c) cs)"

definition hasBreakingFooter :: "string \<Rightarrow> bool" where
  \<comment> \<open>\<^verbatim>\<open>BREAKING_CHANGE_REGEX = /^BREAKING[ -]CHANGE:\s*/im\<close>, tested on the body\<close>
  "hasBreakingFooter b = footer_from True b"

definition parseConventionalCommit :: "RawCommit \<Rightarrow> ConventionalCommit option" where
  "parseConventionalCommit commit =
     (case match_types commit_types (subject commit) of
        None \<Rightarrow> None
      | Some (ty, sc, d) \<Rightarrow>
          Some \<lparr> cc_hash = hash commit,
                 cc_type = toLowerCase ty,
                 cc_scope = sc,
                 cc_subject = trim d,
                 cc_raw = subject commit,
                 cc_breaking = (hasBang (subject commit) \<or> hasBreakingFooter (body commit)) \<rparr>)"

section \<open>Cross-release deduplicator (dedup.ts)\<close>

text \<open>The private \<^verbatim>\<open>Set<string>\<close> of a \<^verbatim>\<open>DeduplicationSet\<close> is the state of the object.\<close>

type_synonym DeduplicationSet = "string set"

definition getKey :: "ConventionalCommit \<Rightarrow> string" where
  "getKey commit =
     toLowerCase (cc_type commit @ '':'' @
       (case cc_scope commit of None \<Rightarrow> [] | Some s \<Rightarrow> s) @ '':'' @ cc_subject commit)"

definition has :: "DeduplicationSet \<Rightarrow> ConventionalCommit \<Rightarrow> bool" where
  "has seen commit \<longleftrightarrow> getKey commit \<in> seen"

definition add :: "DeduplicationSet \<Rightarrow> ConventionalCommit \<Rightarrow> DeduplicationSet" where
  "add seen commit = insert (getKey commit) seen"

fun dedupeCommits ::
  "ConventionalCommit list \<Rightarrow> DeduplicationSet \<Rightarrow> ConventionalCommit list \<times> DeduplicationSet" where
  \<comment> \<open>the surviving commits and the set as the loop leaves it\<close>
  "dedupeCommits [] seenSet = ([], seenSet)"
| "dedupeCommits (commit # rest) seenSet =
     (if has seenSet commit then dedupeCommits rest seenSet
      else (case dedupeCommits rest (add seenSet commit) of
              (result, seenSet') \<Rightarrow> (commit # result, seenSet')))"

section \<open>Numbers in strings\<close>

definition digit_val :: "char \<Rightarrow> nat" where
  "digit_val c = of_char c - 48"

definition nat_of_digits :: "string \<Rightarrow> nat" where
  \<comment> \<open>the value of a string of decimal digits (\<open>+s\<close>, \<open>parseInt(s, 10)\<close>)\<close>
  "nat_of_digits s = foldl (\<lambda>n c. 10 * n + digit_val c) 0 s"

fun string_of_nat :: "nat \<Rightarrow> string" where
  \<comment> \<open>a number in a template string: decimal, no leading zero\<close>
  "string_of_nat n =
     (if n < 10 then [char_of (48 + n)]
      else string_of_nat (n div 10) @ [char_of (48 + n mod 10)])"

declare string_of_nat.simps [simp del]

fun split_on :: "char \<Rightarrow> string \<Rightarrow> string list" where
  \<comment> \<open>\<open>s.split(d)\<close> for a one-character separator\<close>
  "split_on d [] = [[]]"
| "split_on d (c # cs) =
     (if c = d then [] # split_on d cs
      else (case split_on d cs of x # xs \<Rightarrow> (c # x) # xs | [] \<Rightarrow> [[c]]))"

fun join_with :: "string \<Rightarrow> string list \<Rightarrow> string" where
  \<comment> \<open>\<open>xs.join(d)\<close>\<close>
  "join_with d [] = []"
| "join_with d [x] = x"
| "join_with d (x # y # ys) = x @ d @ join_with d (y # ys)"

section \<open>The semver library\<close>

text \<open>
  Modelled from the spec: the package \<^verbatim>\<open>semver\<close>, whose source is not among the files of
  the repository. \<^verbatim>\<open>parser.ts\<close> and \<^verbatim>\<open>bump.ts\<close> call \<^verbatim>\<open>semver.parse\<close>,
  \<^verbatim>\<open>semver.valid\<close>, \<^verbatim>\<open>semver.compare\<close> and \<^verbatim>\<open>semver.inc\<close>; the specification asks
  for a syntactically valid semantic version and for the standard precedence of semantic
  versions. The definitions of this section follow the library (version 7, strict mode, no
  options), its published grammar and its \<^verbatim>\<open>SemVer\<close> class:
  a version is at most 256 characters long; it is trimmed; it reads
  \<^verbatim>\<open>v?MAJOR.MINOR.PATCH(-PRERELEASE)?(+BUILD)?\<close> with numeric identifiers without leading
  zeros; a main component above \<open>2^53 - 1\<close> is refused. Numeric pre-release identifiers are
  compared as natural numbers, which is what the library's comparison of doubles computes
  for identifiers below \<open>2^53\<close>.
\<close>

datatype ident = Num nat | Str string

record SemVer =
  major :: nat
  minor :: nat
  patch :: nat
  prerelease :: "ident list"
  build :: "string list"

definition MAX_LENGTH :: nat where
  "MAX_LENGTH = 256"

definition MAX_SAFE_INTEGER :: nat where
  "MAX_SAFE_INTEGER = 9007199254740991"

definition isLetterDashNumber :: "char \<Rightarrow> bool" where
  \<comment> \<open>the class \<open>[a-zA-Z0-9-]\<close>\<close>
  "isLetterDashNumber c \<longleftrightarrow>
     c \<in> set ''abcdefghijklmnopqrstuvwxyzABCDEFGHIJKLMNOPQRSTUVWXYZ0123456789-''"

definition allDigits :: "string \<Rightarrow> bool" where
  \<comment> \<open>\<open>/^[0-9]+$/\<close>\<close>
  "allDigits s \<longleftrightarrow> s \<noteq> [] \<and> list_all isDigit s"

definition isNumericIdentifier :: "string \<Rightarrow> bool" where
  \<comment> \<open>\<open>0|[1-9]\d*\<close>\<close>
  "isNumericIdentifier s \<longleftrightarrow> allDigits s \<and> (s = ''0'' \<or> hd s \<noteq> CHR ''0'')"

definition isNonNumericIdentifier :: "string \<Rightarrow> bool" where
  \<comment> \<open>\<open>\d*[a-zA-Z-][a-zA-Z0-9-]*\<close>\<close>
  "isNonNumericIdentifier s \<longleftrightarrow> list_all isLetterDashNumber s \<and> \<not> list_all isDigit s"

definition isPrereleaseIdentifier :: "string \<Rightarrow> bool" where
  "isPrereleaseIdentifier s \<longleftrightarrow> isNumericIdentifier s \<or> isNonNumericIdentifier s"

definition isBuildIdentifier :: "string \<Rightarrow> bool" where
  \<comment> \<open>\<open>[a-zA-Z0-9-]+\<close>\<close>
  "isBuildIdentifier s \<longleftrightarrow> s \<noteq> [] \<and> list_all isLetterDashNumber s"

definition prerelease_ident :: "string \<Rightarrow> ident" where
  \<comment> \<open>a numeric identifier below \<open>MAX_SAFE_INTEGER\<close> is kept as a number, any other as text\<close>
  "prerelease_ident s =
     (if allDigits s \<and> nat_of_digits s < MAX_SAFE_INTEGER then Num (nat_of_digits s) else Str s)"

definition break_at :: "char \<Rightarrow> string \<Rightarrow> string \<times> string option" where
  \<comment> \<open>the text before the first separator, and the text after it when there is one\<close>
  "break_at d s =
     (takeWhile (\<lambda>c. c \<noteq> d) s,
      case dropWhile (\<lambda>c. c \<noteq> d) s of [] \<Rightarrow> None | _ # r \<Rightarrow> Some r)"

definition semver_parse :: "string \<Rightarrow> SemVer option" where
  \<comment> \<open>\<open>semver.parse\<close>: \<open>None\<close> is \<open>null\<close>\<close>
  "semver_parse version =
     (if length version > MAX_LENGTH then None
      else
        let t = trim version;
            t' = (case t of c # r \<Rightarrow> if c = CHR ''v'' then r else t | [] \<Rightarrow> t);
            (mainpre, buildpart) = break_at CHR ''+'' t';
            (mainpart, prepart) = break_at CHR ''-'' mainpre;
            pres = (case prepart of None \<Rightarrow> [] | Some p \<Rightarrow> split_on CHR ''.'' p);
            builds = (case buildpart of None \<Rightarrow> [] | Some b \<Rightarrow> split_on CHR ''.'' b)
        in case split_on CHR ''.'' mainpart of
             [a, b, c] \<Rightarrow>
               if isNumericIdentifier a \<and> isNumericIdentifier b \<and> isNumericIdentifier c
                  \<and> list_all isPrereleaseIdentifier pres \<and> list_all isBuildIdentifier builds
                  \<and> nat_of_digits a \<le> MAX_SAFE_INTEGER \<and> nat_of_digits b \<le> MAX_SAFE_INTEGER
                  \<and> nat_of_digits c \<le> MAX_SAFE_INTEGER
               then Some \<lparr> major = nat_of_digits a, minor = nat_of_digits b,
                            patch = nat_of_digits c, prerelease = map prerelease_ident pres,
                            build = builds \<rparr>
               else None
           | _ \<Rightarrow> None)"

definition ident_text :: "ident \<Rightarrow> string" where
  "ident_text i = (case i of Num n \<Rightarrow> string_of_nat n | Str s \<Rightarrow> s)"

definition semver_format :: "SemVer \<Rightarrow> string" where
  \<comment> \<open>the \<open>version\<close> field: the build is left out\<close>
  "semver_format v =
     string_of_nat (major v) @ ''.'' @ string_of_nat (minor v) @ ''.'' @ string_of_nat (patch v) @
     (if prerelease v = [] then [] else ''-'' @ join_with ''.'' (map ident_text (prerelease v)))"

definition compare_nat :: "nat \<Rightarrow> nat \<Rightarrow> int" where
  "compare_nat a b = (if a = b then 0 else if a < b then -1 else 1)"

fun compareIdentifiers :: "ident \<Rightarrow> ident \<Rightarrow> int" where
  \<comment> \<open>numbers by value, a number below any text, texts by their code units\<close>
  "compareIdentifiers (Num a) (Num b) = compare_nat a b"
| "compareIdentifiers (Num a) (Str b) =
     (if allDigits b then compare_nat a (nat_of_digits b) else -1)"
| "compareIdentifiers (Str a) (Num b) =
     (if allDigits a then compare_nat (nat_of_digits a) b else 1)"
| "compareIdentifiers (Str a) (Str b) =
     (if allDigits a \<and> allDigits b then compare_nat (nat_of_digits a) (nat_of_digits b)
      else if a = b then 0
      else if allDigits a then -1
      else if allDigits b then 1
      else if a < b then -1 else 1)"

fun comparePreList :: "ident list \<Rightarrow> ident list \<Rightarrow> int" where
  \<comment> \<open>the loop of \<open>comparePre\<close> over two pre-release lists\<close>
  "comparePreList [] [] = 0"
| "comparePreList (a # as) [] = 1"
| "comparePreList [] (b # bs) = -1"
| "comparePreList (a # as) (b # bs) =
     (if a = b then comparePreList as bs else compareIdentifiers a b)"

definition comparePre :: "SemVer \<Rightarrow> SemVer \<Rightarrow> int" where
  "comparePre x y =
     (if prerelease x \<noteq> [] \<and> prerelease y = [] then -1
      else if prerelease x = [] \<and> prerelease y \<noteq> [] then 1
      else if prerelease x = [] \<and> prerelease y = [] then 0
      else comparePreList (prerelease x) (prerelease y))"

definition compareMain :: "SemVer \<Rightarrow> SemVer \<Rightarrow> int" where
  "compareMain x y =
     (if compare_nat (major x) (major y) \<noteq> 0 then compare_nat (major x) (major y)
      else if compare_nat (minor x) (minor y) \<noteq> 0 then compare_nat (minor x) (minor y)
      else compare_nat (patch x) (patch y))"

definition compareSemVer :: "SemVer \<Rightarrow> SemVer \<Rightarrow> int" where
  \<comment> \<open>\<open>this.compareMain(other) || this.comparePre(other)\<close>\<close>
  "compareSemVer x y = (if compareMain x y \<noteq> 0 then compareMain x y else comparePre x y)"

definition semver_compare :: "string \<Rightarrow> string \<Rightarrow> int" where
  \<comment> \<open>\<open>semver.compare\<close>. The library throws on a string that is not a version; here it is
      called on the keys of the version map only, which have all passed \<open>semver.parse\<close>,
      so the last case is never reached.\<close>
  "semver_compare a b =
     (case (semver_parse a, semver_parse b) of
        (Some x, Some y) \<Rightarrow> compareSemVer x y
      | _ \<Rightarrow> 0)"

datatype BumpType = BumpMajor | BumpMinor | BumpPatch | BumpNone

definition incSemVer :: "SemVer \<Rightarrow> BumpType \<Rightarrow> SemVer" where
  \<comment> \<open>\<open>SemVer.inc\<close> for the releases \<open>major\<close>, \<open>minor\<close> and \<open>patch\<close>\<close>
  "incSemVer v release =
     (case release of
        BumpMajor \<Rightarrow>
          v \<lparr> major := (if minor v \<noteq> 0 \<or> patch v \<noteq> 0 \<or> prerelease v = []
                         then major v + 1 else major v),
              minor := 0, patch := 0, prerelease := [] \<rparr>
      | BumpMinor \<Rightarrow>
          v \<lparr> minor := (if patch v \<noteq> 0 \<or> prerelease v = [] then minor v + 1 else minor v),
              patch := 0, prerelease := [] \<rparr>
      | BumpPatch \<Rightarrow>
          v \<lparr> patch := (if prerelease v = [] then patch v + 1 else patch v), prerelease := [] \<rparr>
      | BumpNone \<Rightarrow> v)"

definition semver_inc :: "string \<Rightarrow> BumpType \<Rightarrow> string option" where
  \<comment> \<open>\<open>semver.inc\<close>: \<open>null\<close> for a string that is not a version\<close>
  "semver_inc version release =
     (case semver_parse version of
        None \<Rightarrow> None
      | Some v \<Rightarrow> Some (semver_format (incSemVer v release)))"

section \<open>Version tag normalizer (parser.ts)\<close>

text \<open>
  \<^verbatim>\<open>VERSION_EXTRACT_REGEX = /(?:.*-)?v?(\d+\.\d+\.\d+(?:-[\w.]+)?)/\<close>

  A greedy run of digits is always taken whole: a shorter run is followed by a digit, where
  neither the dot nor the end of the version can match.
\<close>

definition main_version_at :: "string \<Rightarrow> (string \<times> string) option" where
  \<comment> \<open>\<open>\d+\.\d+\.\d+\<close> at the start of the string: the matched text and the rest\<close>
  "main_version_at s =
     (let a = takeWhile isDigit s; r1 = dropWhile isDigit s
      in if a = [] then None
         else case r1 of
           [] \<Rightarrow> None
         | p # r1' \<Rightarrow>
             if p \<noteq> CHR ''.'' then None
             else
               let b = takeWhile isDigit r1'; r2 = dropWhile isDigit r1'
               in if b = [] then None
                  else case r2 of
                    [] \<Rightarrow> None
                  | q # r2' \<Rightarrow>
                      if q \<noteq> CHR ''.'' then None
                      else
                        let c = takeWhile isDigit r2'
                        in if c = [] then None
                           else Some (a @ ''.'' @ b @ ''.'' @ c, dropWhile isDigit r2'))"

definition isWordDot :: "char \<Rightarrow> bool" where
  \<comment> \<open>the class \<open>[\w.]\<close>\<close>
  "isWordDot c \<longleftrightarrow> isWordChar c \<or> c = CHR ''.''"

definition version_text_at :: "string \<Rightarrow> string option" where
  \<comment> \<open>the group \<open>(\d+\.\d+\.\d+(?:-[\w.]+)?)\<close> at the start of the string\<close>
  "version_text_at s =
     (case main_version_at s of
        None \<Rightarrow> None
      | Some (m, r) \<Rightarrow>
          (case r of
             [] \<Rightarrow> Some m
           | h # r' \<Rightarrow>
               if h = CHR ''-'' \<and> takeWhile isWordDot r' \<noteq> []
               then Some (m @ ''-'' @ takeWhile isWordDot r')
               else Some m))"

definition version_at :: "string \<Rightarrow> string option" where
  \<comment> \<open>\<open>v?(\d+\.\d+\.\d+(?:-[\w.]+)?)\<close>: first with the \<open>v\<close>, then without\<close>
  "version_at s =
     (case (case s of c # r \<Rightarrow> if c = CHR ''v'' then version_text_at r else None | [] \<Rightarrow> None) of
        Some m \<Rightarrow> Some m
      | None \<Rightarrow> version_text_at s)"

fun prefixed_version_at :: "string \<Rightarrow> string option" where
  \<comment> \<open>\<open>.*-v?(...)\<close>: the greedy \<open>.*\<close> takes a unit that is no line terminator and goes on;
      when the rest then fails it stops here, where the hyphen must stand\<close>
  "prefixed_version_at [] = None"
| "prefixed_version_at (c # cs) =
     (case (if isLineTerminator c then None else prefixed_version_at cs) of
        Some m \<Rightarrow> Some m
      | None \<Rightarrow> if c = CHR ''-'' then version_at cs else None)"

definition extract_at :: "string \<Rightarrow> string option" where
  \<comment> \<open>the whole expression at one start: first with the prefix group, then without\<close>
  "extract_at s =
     (case prefixed_version_at s of Some m \<Rightarrow> Some m | None \<Rightarrow> version_at s)"

fun extract_search :: "string \<Rightarrow> string option" where
  \<comment> \<open>the expression is not anchored: the starts are tried from left to right\<close>
  "extract_search [] = extract_at []"
| "extract_search (c # cs) =
     (case extract_at (c # cs) of Some m \<Rightarrow> Some m | None \<Rightarrow> extract_search cs)"

definition extractVersion :: "string \<Rightarrow> string option" where
  "extractVersion t = extract_search t"

definition isValidVersion :: "string \<Rightarrow> bool" where
  "isValidVersion t \<longleftrightarrow>
     (case extractVersion t of None \<Rightarrow> False | Some e \<Rightarrow> semver_parse e \<noteq> None)"

record TagInfo =
  original :: string
  clean :: string
  display :: string

record TagMap =
  versions :: "string list"
  tags :: "(string \<times> TagInfo) list"

text \<open>
  A JavaScript \<^verbatim>\<open>Map\<close> keeps its keys in the order of their first insertion: it is an
  association list, read with \<^const>\<open>map_of\<close>.
\<close>

fun map_push :: "string \<Rightarrow> TagInfo \<Rightarrow> (string \<times> TagInfo list) list \<Rightarrow> (string \<times> TagInfo list) list" where
  \<comment> \<open>\<open>if (!versionMap.has(clean)) versionMap.set(clean, []); versionMap.get(clean).push(info)\<close>\<close>
  "map_push k v [] = [(k, [v])]"
| "map_push k v ((k', vs) # m) =
     (if k = k' then (k', vs @ [v]) # m else (k', vs) # map_push k v m)"

definition collect_tag :: "(string \<times> TagInfo list) list \<Rightarrow> string \<Rightarrow> (string \<times> TagInfo list) list" where
  \<comment> \<open>the body of the first loop of \<open>normalizeTags\<close>\<close>
  "collect_tag versionMap t =
     (case extractVersion t of
        None \<Rightarrow> versionMap
      | Some cl \<Rightarrow>
          if cl = [] then versionMap
          else (case semver_parse cl of
                  None \<Rightarrow> versionMap
                | Some parsed \<Rightarrow>
                    map_push cl \<lparr> original = t, clean = cl, display = ''v'' @ cl \<rparr> versionMap))"

definition isVPrefixed :: "string \<Rightarrow> bool" where
  \<comment> \<open>\<open>/^v\d/\<close>\<close>
  "isVPrefixed s \<longleftrightarrow> (case s of c # d # r \<Rightarrow> c = CHR ''v'' \<and> isDigit d | _ \<Rightarrow> False)"

definition compareTagInfo :: "TagInfo \<Rightarrow> TagInfo \<Rightarrow> int" where
  \<comment> \<open>the comparator of \<open>infos.sort\<close>\<close>
  "compareTagInfo a b =
     (if isVPrefixed (original a) \<and> \<not> isVPrefixed (original b) then -1
      else if \<not> isVPrefixed (original a) \<and> isVPrefixed (original b) then 1
      else int (length (original a)) - int (length (original b)))"

text \<open>
  \<^verbatim>\<open>Array.prototype.sort\<close> is stable, and with a consistent comparator it returns the
  elements in ascending order: a stable insertion sort by the comparator.
\<close>

fun insert_by :: "('a \<Rightarrow> 'a \<Rightarrow> int) \<Rightarrow> 'a \<Rightarrow> 'a list \<Rightarrow> 'a list" where
  "insert_by cmp x [] = [x]"
| "insert_by cmp x (y # ys) = (if cmp x y \<le> 0 then x # y # ys else y # insert_by cmp x ys)"

definition sort_by :: "('a \<Rightarrow> 'a \<Rightarrow> int) \<Rightarrow> 'a list \<Rightarrow> 'a list" where
  "sort_by cmp xs = foldr (insert_by cmp) xs []"

definition canonical_entry :: "string \<times> TagInfo list \<Rightarrow> (string \<times> TagInfo) option" where
  \<comment> \<open>\<open>result.set(clean, sorted[0])\<close>; for an empty array \<open>sorted[0]\<close> is \<open>undefined\<close>, and
      reading a field of it later throws, as a missing key does\<close>
  "canonical_entry e =
     (case sort_by compareTagInfo (snd e) of [] \<Rightarrow> None | first # rest \<Rightarrow> Some (fst e, first))"

definition normalizeTags :: "string list \<Rightarrow> TagMap" where
  "normalizeTags ts =
     (let versionMap = foldl collect_tag [] ts
      in \<lparr> versions = sort_by semver_compare (map fst versionMap),
            tags = List.map_filter canonical_entry versionMap \<rparr>)"

definition isPreRelease :: "string \<Rightarrow> bool" where
  "isPreRelease version \<longleftrightarrow>
     (case semver_parse version of None \<Rightarrow> False | Some parsed \<Rightarrow> prerelease parsed \<noteq> [])"

definition sortTagsBySemver :: "string list \<Rightarrow> string list" where
  \<comment> \<open>a version without an entry makes \<open>tagMap.get(v)!.original\<close> throw: it is left out here\<close>
  "sortTagsBySemver ts =
     (let tm = normalizeTags ts
      in List.map_filter (\<lambda>v. map_option original (map_of (tags tm) v)) (versions tm))"

section \<open>Release assembler (the action of cli.ts)\<close>

text \<open>
  The calls into git, \<^verbatim>\<open>getCommits(tag, cwd)\<close> and \<^verbatim>\<open>getTagDate(tag, cwd)\<close>, are
  parameters of the model: functions of the tag.
\<close>

record TagChangelog =
  tag :: string
  displayTag :: string
  originalTag :: string
  date :: string
  commits :: "ConventionalCommit list"

record PendingTagInfo =
  p_display :: string
  p_original :: string
  p_date :: string

record AssemblerState =
  seenSet :: DeduplicationSet
  changelogs :: "TagChangelog list"
  pendingCommits :: "ConventionalCommit list"
  pendingTagInfo :: "PendingTagInfo option"

datatype run_error = NoValidTags | TypeError

definition initial_state :: AssemblerState where
  "initial_state = \<lparr> seenSet = {}, changelogs = [], pendingCommits = [], pendingTagInfo = None \<rparr>"

definition assemble_version ::
  "(string \<Rightarrow> RawCommit list) \<Rightarrow> (string \<Rightarrow> string) \<Rightarrow> TagMap \<Rightarrow> AssemblerState \<Rightarrow> string
     \<Rightarrow> run_error + AssemblerState" where
  \<comment> \<open>the body of the loop over \<open>tagMap.versions\<close>\<close>
  "assemble_version getCommits getTagDate tagMap st version =
     (case map_of (tags tagMap) version of
        None \<Rightarrow> Inl TypeError
      | Some tagInfo \<Rightarrow>
          let dt = getTagDate (original tagInfo);
              rawCommits = getCommits (original tagInfo);
              conventionalCommits = List.map_filter parseConventionalCommit rawCommits;
              (uniqueCommits, seen') = dedupeCommits conventionalCommits (seenSet st)
          in if isPreRelease version
             then Inr (st \<lparr> seenSet := seen',
                             pendingCommits := pendingCommits st @ uniqueCommits,
                             pendingTagInfo :=
                               (case pendingTagInfo st of
                                  None \<Rightarrow> Some \<lparr> p_display = display tagInfo,
                                                   p_original = original tagInfo,
                                                   p_date = dt \<rparr>
                                | Some p \<Rightarrow> Some p) \<rparr>)
             else Inr (st \<lparr> seenSet := seen',
                             changelogs := changelogs st @
                               [\<lparr> tag = version, displayTag = display tagInfo,
                                   originalTag = original tagInfo, date = dt,
                                   commits = pendingCommits st @ uniqueCommits \<rparr>],
                             pendingCommits := [],
                             pendingTagInfo := None \<rparr>))"

fun walk_versions ::
  "(string \<Rightarrow> RawCommit list) \<Rightarrow> (string \<Rightarrow> string) \<Rightarrow> TagMap \<Rightarrow> AssemblerState \<Rightarrow> string list
     \<Rightarrow> run_error + AssemblerState" where
  "walk_versions getCommits getTagDate tagMap st [] = Inr st"
| "walk_versions getCommits getTagDate tagMap st (version # rest) =
     (case assemble_version getCommits getTagDate tagMap st version of
        Inl e \<Rightarrow> Inl e
      | Inr st' \<Rightarrow> walk_versions getCommits getTagDate tagMap st' rest)"

definition strip_v :: "string \<Rightarrow> string" where
  \<comment> \<open>\<open>replace(/^v/, "")\<close>\<close>
  "strip_v s = (case s of c # r \<Rightarrow> if c = CHR ''v'' then r else s | [] \<Rightarrow> s)"

definition flush_pending :: "AssemblerState \<Rightarrow> TagChangelog list" where
  \<comment> \<open>\<open>if (pendingCommits.length > 0 && pendingTagInfo) changelogs.push(...)\<close>\<close>
  "flush_pending st =
     (case pendingTagInfo st of
        None \<Rightarrow> changelogs st
      | Some p \<Rightarrow>
          if pendingCommits st \<noteq> []
          then changelogs st @
                 [\<lparr> tag = strip_v (p_display p), displayTag = p_display p,
                     originalTag = p_original p, date = p_date p,
                     commits = pendingCommits st \<rparr>]
          else changelogs st)"

definition assemble ::
  "(string \<Rightarrow> RawCommit list) \<Rightarrow> (string \<Rightarrow> string) \<Rightarrow> TagMap \<Rightarrow> run_error + TagChangelog list" where
  \<comment> \<open>from the check of \<open>tagMap.versions\<close> to the list handed to \<open>formatChangelog\<close>\<close>
  "assemble getCommits getTagDate tagMap =
     (if versions tagMap = [] then Inl NoValidTags
      else case walk_versions getCommits getTagDate tagMap initial_state (versions tagMap) of
             Inl e \<Rightarrow> Inl e
           | Inr st \<Rightarrow> Inr (flush_pending st))"

definition run_changelogs ::
  "(string \<Rightarrow> RawCommit list) \<Rightarrow> (string \<Rightarrow> string) \<Rightarrow> string list \<Rightarrow> run_error + TagChangelog list" where
  \<comment> \<open>the changelog branch of \<open>run\<close>, from the tags that \<open>getTags\<close> returned\<close>
  "run_changelogs getCommits getTagDate allTags =
     assemble getCommits getTagDate (normalizeTags allTags)"

section \<open>Version bump advisor (bump.ts)\<close>

record BumpResult =
  currentVersion :: string
  nextVersion :: string
  bumpType :: BumpType
  hasBreaking :: bool
  hasFeatures :: bool
  hasFixes :: bool

definition plain_version_at :: "string \<Rightarrow> string option" where
  \<comment> \<open>\<open>v?(\d+\.\d+\.\d+)\<close> at the start of the string\<close>
  "plain_version_at s =
     (case (case s of c # r \<Rightarrow> if c = CHR ''v'' then map_option fst (main_version_at r) else None
                     | [] \<Rightarrow> None) of
        Some m \<Rightarrow> Some m
      | None \<Rightarrow> map_option fst (main_version_at s))"

fun plain_version_search :: "string \<Rightarrow> string option" where
  \<comment> \<open>\<open>tag.match(/v?(\d+\.\d+\.\d+)/)\<close>: the leftmost match\<close>
  "plain_version_search [] = None"
| "plain_version_search (c # cs) =
     (case plain_version_at (c # cs) of Some m \<Rightarrow> Some m | None \<Rightarrow> plain_version_search cs)"

definition extractVersionFromTag :: "string \<Rightarrow> string" where
  "extractVersionFromTag t = (case plain_version_search t of Some m \<Rightarrow> m | None \<Rightarrow> ''0.0.0'')"

definition suggestNextVersion :: "RawCommit list \<Rightarrow> string option \<Rightarrow> BumpResult" where
  \<comment> \<open>\<open>null\<close> and the empty string are the falsy values of \<open>lastTag\<close>\<close>
  "suggestNextVersion cs lastTag =
     (let current = (case lastTag of
                       None \<Rightarrow> ''0.0.0''
                     | Some t \<Rightarrow> if t \<noteq> [] then extractVersionFromTag t else ''0.0.0'');
          isPrerelease = (case lastTag of
                            None \<Rightarrow> False
                          | Some t \<Rightarrow> t \<noteq> [] \<and> CHR ''-'' \<in> set t);
          conventionalCommits = List.map_filter parseConventionalCommit cs;
          breaking = list_ex cc_breaking conventionalCommits;
          features = list_ex (\<lambda>c. cc_type c = ''feat'') conventionalCommits;
          fixes = list_ex (\<lambda>c. cc_type c = ''fix'' \<or> cc_type c = ''perf'') conventionalCommits;
          bump =
            (if breaking
             then (case semver_parse current of
                     None \<Rightarrow> BumpMajor
                   | Some parsed \<Rightarrow> if major parsed = 0 then BumpMinor else BumpMajor)
             else if features then BumpMinor
             else if fixes then BumpPatch
             else BumpNone);
          next =
            (if isPrerelease \<and> bump = BumpPatch then current
             else if bump = BumpNone then current
             else (case semver_inc current bump of None \<Rightarrow> current | Some v \<Rightarrow> v))
      in \<lparr> currentVersion = current, nextVersion = next, bumpType = bump,
            hasBreaking = breaking, hasFeatures = features, hasFixes = fixes \<rparr>)"








section \<open>Notions used in the proofs\<close>

text \<open>
  The precedence of two versions is the order of their keys: the three numbers, then a mark
  that puts a version with a pre-release before the one without, then the keys of the
  pre-release identifiers, a number before any text. An identifier is canonical when it is
  what \<^const>\<open>prerelease_ident\<close> returns for an identifier of the grammar.
\<close>

definition ident_key :: "ident \<Rightarrow> nat \<times> nat \<times> string" where
  "ident_key i =
     (case i of
        Num n \<Rightarrow> (0, n, [])
      | Str s \<Rightarrow> if allDigits s then (0, nat_of_digits s, []) else (1, 0, s))"

definition canonical_ident :: "ident \<Rightarrow> bool" where
  "canonical_ident i \<longleftrightarrow>
     (case i of
        Num n \<Rightarrow> n < MAX_SAFE_INTEGER
      | Str s \<Rightarrow> allDigits s \<longrightarrow> isNumericIdentifier s \<and> MAX_SAFE_INTEGER \<le> nat_of_digits s)"

definition semver_key :: "SemVer \<Rightarrow> nat \<times> nat \<times> nat \<times> nat \<times> (nat \<times> nat \<times> string) list" where
  "semver_key v =
     (major v, minor v, patch v, if prerelease v = [] then 1 else 0, map ident_key (prerelease v))"

text \<open>
  The invariant of the first loop of \<^const>\<open>normalizeTags\<close> after the tags \<open>seen\<close>: the keys
  are distinct, every group holds the tags seen with its version, in their order, and every
  valid version seen has its group.
\<close>

definition versionMap_inv :: "(string \<times> TagInfo list) list \<Rightarrow> string list \<Rightarrow> bool" where
  "versionMap_inv vm seen \<longleftrightarrow>
     distinct (map fst vm) \<and>
     (\<forall>k infos. map_of vm k = Some infos \<longrightarrow>
        infos \<noteq> [] \<and> semver_parse k \<noteq> None \<and>
        infos = map (\<lambda>t. \<lparr> original = t, clean = k, display = ''v'' @ k \<rparr>)
                  (filter (\<lambda>t. extractVersion t = Some k) seen)) \<and>
     (\<forall>t \<in> set seen. \<forall>k. extractVersion t = Some k \<longrightarrow> semver_parse k \<noteq> None \<longrightarrow>
        map_of vm k \<noteq> None)"

section \<open>Properties of the release assembler\<close>

lemma isPreRelease_rc1: "isPreRelease ''1.0.0-rc.1''"
  by code_simp

lemma not_isPreRelease_100: "\<not> isPreRelease ''1.0.0''"
  by code_simp

text \<open>
  Claim C1. For the version sequence \<open>1.0.0-rc.1\<close>, \<open>1.0.0\<close> the assembler emits exactly one
  \<open>TagChangelog\<close>. Its label, display tag, original tag and date are those of the stable
  version, and its commits are the deduplicated commits of the release candidate followed
  by the deduplicated commits of the stable version.
\<close>

theorem rollup_into_stable:
  assumes "versions tm = [''1.0.0-rc.1'', ''1.0.0'']"
    and "map_of (tags tm) ''1.0.0-rc.1'' = Some ti_rc"
    and "map_of (tags tm) ''1.0.0'' = Some ti_st"
    and "dedupeCommits (List.map_filter parseConventionalCommit (getCommits (original ti_rc))) {}
           = (u1, s1)"
    and "dedupeCommits (List.map_filter parseConventionalCommit (getCommits (original ti_st))) s1
           = (u2, s2)"
  shows "assemble getCommits getTagDate tm =
           Inr [\<lparr> tag = ''1.0.0'', displayTag = display ti_st, originalTag = original ti_st,
                   date = getTagDate (original ti_st), commits = u1 @ u2 \<rparr>]"
  using assms
  by (simp add: assemble_def assemble_version_def initial_state_def flush_pending_def
        isPreRelease_rc1 not_isPreRelease_100)

text \<open>
  The tags \<open>v1.0.0-rc.1\<close> with the commit \<open>fix: a\<close> and \<open>v1.0.0\<close> with the commit \<open>feat: b\<close>:
  one group for \<open>1.0.0\<close> with both commits.
\<close>

theorem rollup_into_stable_witness:
  "run_changelogs
     (\<lambda>t. if t = ''v1.0.0-rc.1'' then [\<lparr>hash = ''a1'', subject = ''fix: a'', body = ''''\<rparr>]
          else [\<lparr>hash = ''b2'', subject = ''feat: b'', body = ''''\<rparr>])
     (\<lambda>t. if t = ''v1.0.0-rc.1'' then ''2024-01-01'' else ''2024-02-01'')
     [''v1.0.0-rc.1'', ''v1.0.0'']
   = Inr [\<lparr> tag = ''1.0.0'', displayTag = ''v1.0.0'', originalTag = ''v1.0.0'',
             date = ''2024-02-01'',
             commits = [\<lparr>cc_hash = ''a1'', cc_type = ''fix'', cc_scope = None, cc_subject = ''a'',
                          cc_raw = ''fix: a'', cc_breaking = False\<rparr>,
                        \<lparr>cc_hash = ''b2'', cc_type = ''feat'', cc_scope = None, cc_subject = ''b'',
                          cc_raw = ''feat: b'', cc_breaking = False\<rparr>] \<rparr>]"
proof -
  let ?T = "normalizeTags [''v1.0.0-rc.1'', ''v1.0.0'']"
  let ?ti_rc = "\<lparr>original = ''v1.0.0-rc.1'', clean = ''1.0.0-rc.1'', display = ''v1.0.0-rc.1''\<rparr>"
  let ?ti_st = "\<lparr>original = ''v1.0.0'', clean = ''1.0.0'', display = ''v1.0.0''\<rparr>"
  let ?G = "\<lambda>t. if t = ''v1.0.0-rc.1'' then [\<lparr>hash = ''a1'', subject = ''fix: a'', body = ''''\<rparr>]
          else [\<lparr>hash = ''b2'', subject = ''feat: b'', body = ''''\<rparr>]"
  have v: "versions ?T = [''1.0.0-rc.1'', ''1.0.0'']"
    by code_simp
  have t1: "map_of (tags ?T) ''1.0.0-rc.1'' = Some ?ti_rc"
    by code_simp
  have t2: "map_of (tags ?T) ''1.0.0'' = Some ?ti_st"
    by code_simp
  have d1: "dedupeCommits (List.map_filter parseConventionalCommit (?G (original ?ti_rc))) {}
     = ([\<lparr>cc_hash = ''a1'', cc_type = ''fix'', cc_scope = None, cc_subject = ''a'',
           cc_raw = ''fix: a'', cc_breaking = False\<rparr>], {''fix::a''})"
    by code_simp
  have d2: "dedupeCommits (List.map_filter parseConventionalCommit (?G (original ?ti_st)))
              {''fix::a''}
     = ([\<lparr>cc_hash = ''b2'', cc_type = ''feat'', cc_scope = None, cc_subject = ''b'',
           cc_raw = ''feat: b'', cc_breaking = False\<rparr>], {''feat::b'', ''fix::a''})"
    by code_simp
  show ?thesis
    unfolding run_changelogs_def
    using rollup_into_stable[OF v t1 t2 d1 d2] by simp
qed

lemma walk_versions_append:
  "walk_versions gc gd tm st (xs @ ys) =
     (case walk_versions gc gd tm st xs of Inl e \<Rightarrow> Inl e | Inr s \<Rightarrow> walk_versions gc gd tm s ys)"
  by (induction xs arbitrary: st) (auto split: sum.splits)

lemma assemble_version_prerelease:
  assumes "assemble_version gc gd tm st v = Inr st'" and "isPreRelease v"
  shows "changelogs st' = changelogs st"
    and "\<exists>ti. map_of (tags tm) v = Some ti \<and>
           pendingTagInfo st' =
             (case pendingTagInfo st of
                None \<Rightarrow> Some \<lparr> p_display = display ti, p_original = original ti,
                                p_date = gd (original ti) \<rparr>
              | Some p \<Rightarrow> Some p)"
  using assms
  by (auto simp: assemble_version_def Let_def split: option.splits prod.splits)

lemma assemble_version_stable:
  assumes "assemble_version gc gd tm st v = Inr st'" and "\<not> isPreRelease v"
  shows "pendingCommits st' = []" and "pendingTagInfo st' = None"
  using assms
  by (auto simp: assemble_version_def Let_def split: option.splits prod.splits)

lemma walk_prereleases_keep:
  assumes "walk_versions gc gd tm st vs = Inr st'" and "\<forall>v \<in> set vs. isPreRelease v"
    and "pendingTagInfo st = Some p"
  shows "changelogs st' = changelogs st \<and> pendingTagInfo st' = Some p"
  using assms
proof (induction vs arbitrary: st)
  case Nil
  then show ?case by simp
next
  case (Cons v vs)
  from Cons.prems(1) obtain s1 where
    s1: "assemble_version gc gd tm st v = Inr s1" and w: "walk_versions gc gd tm s1 vs = Inr st'"
    by (auto split: sum.splits)
  from Cons.prems(2) have pv: "isPreRelease v" and pvs: "\<forall>v \<in> set vs. isPreRelease v"
    by simp_all
  from assemble_version_prerelease[OF s1 pv] Cons.prems(3)
  have "changelogs s1 = changelogs st" and "pendingTagInfo s1 = Some p"
    by auto
  with Cons.IH[OF w pvs] show ?case by simp
qed

lemma walk_ends_stable:
  assumes "walk_versions gc gd tm st vs = Inr st'"
    and "vs = [] \<or> \<not> isPreRelease (last vs)"
    and "pendingCommits st = []" and "pendingTagInfo st = None"
  shows "pendingCommits st' = [] \<and> pendingTagInfo st' = None"
proof (cases vs rule: rev_cases)
  case Nil
  with assms show ?thesis by simp
next
  case (snoc xs l)
  with assms(1) obtain s1 where
    "walk_versions gc gd tm st xs = Inr s1" and l: "walk_versions gc gd tm s1 [l] = Inr st'"
    by (auto simp: walk_versions_append split: sum.splits)
  from l have "assemble_version gc gd tm s1 l = Inr st'"
    by (auto split: sum.splits)
  moreover from snoc assms(2) have "\<not> isPreRelease l" by simp
  ultimately show ?thesis
    using assemble_version_stable by blast
qed

text \<open>
  Claim C4. When the version sequence ends in a chain of pre-releases that no stable version
  follows (the part before the chain is empty or ends in a stable version) and commits are
  pending after the walk, the walk emits nothing for the chain and exactly one final
  \<open>TagChangelog\<close> is added after it. It carries the display tag, original tag and date of
  the first pre-release of the chain, its label is that display tag without a leading \<open>v\<close>,
  and its commits are the commits accumulated over the chain.
\<close>

theorem trailing_prereleases_flush:
  assumes vs: "versions tm = stable_part @ c # cs"
    and pre: "\<forall>v \<in> set (c # cs). isPreRelease v"
    and stable: "stable_part = [] \<or> \<not> isPreRelease (last stable_part)"
    and walk: "walk_versions getCommits getTagDate tm initial_state (versions tm) = Inr st"
    and pending: "pendingCommits st \<noteq> []"
  shows "\<exists>ti st0.
           map_of (tags tm) c = Some ti \<and>
           walk_versions getCommits getTagDate tm initial_state stable_part = Inr st0 \<and>
           pendingCommits st0 = [] \<and>
           walk_versions getCommits getTagDate tm st0 (c # cs) = Inr st \<and>
           changelogs st = changelogs st0 \<and>
           assemble getCommits getTagDate tm =
             Inr (changelogs st0 @
                    [\<lparr> tag = strip_v (display ti), displayTag = display ti,
                        originalTag = original ti, date = getTagDate (original ti),
                        commits = pendingCommits st \<rparr>])"
proof -
  from walk vs obtain st0 where
    w0: "walk_versions getCommits getTagDate tm initial_state stable_part = Inr st0"
    and w1: "walk_versions getCommits getTagDate tm st0 (c # cs) = Inr st"
    by (auto simp: walk_versions_append split: sum.splits)
  have init: "pendingCommits initial_state = []" "pendingTagInfo initial_state = None"
    by (simp_all add: initial_state_def)
  from walk_ends_stable[OF w0 stable init]
  have p0: "pendingCommits st0 = []" and t0: "pendingTagInfo st0 = None"
    by simp_all
  from w1 obtain s1 where
    a: "assemble_version getCommits getTagDate tm st0 c = Inr s1"
    and w2: "walk_versions getCommits getTagDate tm s1 cs = Inr st"
    by (auto split: sum.splits)
  from pre have pc: "isPreRelease c" and pcs: "\<forall>v \<in> set cs. isPreRelease v"
    by simp_all
  from assemble_version_prerelease[OF a pc] t0 obtain ti where
    ti: "map_of (tags tm) c = Some ti"
    and c1: "changelogs s1 = changelogs st0"
    and t1: "pendingTagInfo s1 = Some \<lparr> p_display = display ti, p_original = original ti,
                                        p_date = getTagDate (original ti) \<rparr>"
    by auto
  from walk_prereleases_keep[OF w2 pcs t1] c1
  have c2: "changelogs st = changelogs st0"
    and t2: "pendingTagInfo st = Some \<lparr> p_display = display ti, p_original = original ti,
                                        p_date = getTagDate (original ti) \<rparr>"
    by simp_all
  have "assemble getCommits getTagDate tm =
          Inr (changelogs st0 @
                 [\<lparr> tag = strip_v (display ti), displayTag = display ti,
                     originalTag = original ti, date = getTagDate (original ti),
                     commits = pendingCommits st \<rparr>])"
    using vs walk pending c2 t2 by (simp add: assemble_def flush_pending_def)
  with ti w0 p0 w1 c2 show ?thesis by blast
qed

text \<open>
  The single tag \<open>v1.0.0-rc.1\<close> with the commit \<open>feat: a\<close>: one group, labelled
  \<open>1.0.0-rc.1\<close>.
\<close>

theorem trailing_prereleases_flush_witness:
  "run_changelogs (\<lambda>t. [\<lparr>hash = ''a1'', subject = ''feat: a'', body = ''''\<rparr>])
     (\<lambda>t. ''2024-03-01'') [''v1.0.0-rc.1'']
   = Inr [\<lparr> tag = ''1.0.0-rc.1'', displayTag = ''v1.0.0-rc.1'', originalTag = ''v1.0.0-rc.1'',
             date = ''2024-03-01'',
             commits = [\<lparr>cc_hash = ''a1'', cc_type = ''feat'', cc_scope = None, cc_subject = ''a'',
                          cc_raw = ''feat: a'', cc_breaking = False\<rparr>] \<rparr>]"
proof -
  let ?T = "normalizeTags [''v1.0.0-rc.1'']"
  let ?G = "\<lambda>t::string. [\<lparr>hash = ''a1'', subject = ''feat: a'', body = ''''\<rparr>]"
  let ?D = "\<lambda>t::string. ''2024-03-01''"
  let ?c = "\<lparr>cc_hash = ''a1'', cc_type = ''feat'', cc_scope = None, cc_subject = ''a'',
              cc_raw = ''feat: a'', cc_breaking = False\<rparr>"
  let ?st = "\<lparr> seenSet = {''feat::a''}, changelogs = [], pendingCommits = [?c],
               pendingTagInfo = Some \<lparr> p_display = ''v1.0.0-rc.1'', p_original = ''v1.0.0-rc.1'',
                                       p_date = ''2024-03-01'' \<rparr> \<rparr>"
  have vs: "versions ?T = [] @ ''1.0.0-rc.1'' # []"
    by code_simp
  have pre: "\<forall>v \<in> set (''1.0.0-rc.1'' # []). isPreRelease v"
    by code_simp
  have walk: "walk_versions ?G ?D ?T initial_state (versions ?T) = Inr ?st"
    by code_simp
  have pending: "pendingCommits ?st \<noteq> []"
    by simp
  have ti: "map_of (tags ?T) ''1.0.0-rc.1'' =
              Some \<lparr>original = ''v1.0.0-rc.1'', clean = ''1.0.0-rc.1'', display = ''v1.0.0-rc.1''\<rparr>"
    by code_simp
  from trailing_prereleases_flush[OF vs pre _ walk pending] ti
  show ?thesis
    unfolding run_changelogs_def
    by (auto simp: initial_state_def strip_v_def)
qed

section \<open>Properties of the commit classifier\<close>

text \<open>
  Claim C2. The claim says that the breaking flag is set by a \<open>!\<close> directly before the colon
  that ends the type and scope header, or by a footer in the body, and that a \<open>!:\<close> inside
  the description does not set it. The test for the marker is not anchored at the header:
  for the subject \<open>feat: foo!: bar\<close> with an empty body the flag is set.
\<close>

theorem bang_in_description_sets_breaking:
  "parseConventionalCommit \<lparr>hash = ''abc123'', subject = ''feat: foo!: bar'', body = ''''\<rparr>
   = Some \<lparr>cc_hash = ''abc123'', cc_type = ''feat'', cc_scope = None, cc_subject = ''foo!: bar'',
            cc_raw = ''feat: foo!: bar'', cc_breaking = True\<rparr>"
  by code_simp

section \<open>Properties of the deduplicator\<close>

lemma toLowerChar_colon [simp]: "toLowerChar c = CHR '':'' \<longleftrightarrow> c = CHR '':''"
proof
  assume h: "toLowerChar c = CHR '':''"
  show "c = CHR '':''"
  proof (rule ccontr)
    assume n: "c \<noteq> CHR '':''"
    with h have range: "(65 \<le> (of_char c :: nat) \<and> (of_char c :: nat) \<le> 90) \<or>
        (192 \<le> (of_char c :: nat) \<and> (of_char c :: nat) \<le> 222 \<and> (of_char c :: nat) \<noteq> 215)"
      and eq: "char_of ((of_char c :: nat) + 32) = CHR '':''"
      by (auto simp: toLowerChar_def Let_def split: if_splits)
    from eq have "(of_char (char_of ((of_char c :: nat) + 32) :: char) :: nat) = of_char CHR '':''"
      by simp
    then have "((of_char c :: nat) + 32) mod 256 = 58"
      by simp
    with range show False
      by auto
  qed
next
  assume "c = CHR '':''"
  then show "toLowerChar c = CHR '':''"
    by (simp add: toLowerChar_def)
qed

lemma toLowerChar_colon' [simp]: "CHR '':'' = toLowerChar c \<longleftrightarrow> c = CHR '':''"
  using toLowerChar_colon[of c] by metis

lemma toLowerChar_colon_self [simp]: "toLowerChar CHR '':'' = CHR '':''"
  by simp

lemma toLowerCase_append [simp]: "toLowerCase (a @ b) = toLowerCase a @ toLowerCase b"
  by (simp add: toLowerCase_def)

lemma toLowerCase_Cons [simp]: "toLowerCase (c # s) = toLowerChar c # toLowerCase s"
  by (simp add: toLowerCase_def)

lemma toLowerCase_Nil [simp]: "toLowerCase [] = []"
  by (simp add: toLowerCase_def)

lemma colon_in_toLowerCase [simp]: "CHR '':'' \<in> set (toLowerCase s) \<longleftrightarrow> CHR '':'' \<in> set s"
  by (induction s) auto

lemma toLowerCase_eq_Nil [simp]: "toLowerCase s = [] \<longleftrightarrow> s = []"
  by (simp add: toLowerCase_def)

lemma Nil_eq_toLowerCase [simp]: "[] = toLowerCase s \<longleftrightarrow> s = []"
  by (simp add: toLowerCase_def)

lemma split_at_separator:
  assumes "d \<notin> set a" and "d \<notin> set b" and "a @ d # x = b @ d # y"
  shows "a = b \<and> x = y"
  using assms
proof (induction a arbitrary: b)
  case Nil
  then show ?case by (cases b) auto
next
  case (Cons h a)
  then show ?case by (cases b) auto
qed


lemma match_scope_chars:
  assumes "match_scope s = Some (x, r)"
  shows "x \<noteq> [] \<and> (\<forall>ch \<in> set x. isScopeChar ch)"
  using assms
  by (auto simp: match_scope_def split: list.splits if_splits dest: set_takeWhileD)

lemma match_after_type_scope:
  assumes "match_after_type s = Some (sc, d)" and "sc = Some x"
  shows "x \<noteq> [] \<and> (\<forall>ch \<in> set x. isScopeChar ch)"
  using assms match_scope_chars
  by (auto simp: match_after_type_def split: option.splits prod.splits)

lemma match_types_result:
  assumes "match_types ts s = Some (ty, sc, d)"
  shows "toLowerCase ty \<in> set ts \<and> (\<forall>x. sc = Some x \<longrightarrow> x \<noteq> [] \<and> (\<forall>ch \<in> set x. isScopeChar ch))"
  using assms
proof (induction ts)
  case Nil
  then show ?case by simp
next
  case (Cons t ts)
  show ?case
  proof (cases "if startsWithCI t s then match_after_type (drop (length t) s) else None")
    case None
    with Cons show ?thesis by auto
  next
    case (Some r)
    then have ci: "startsWithCI t s" and m: "match_after_type (drop (length t) s) = Some r"
      by (auto split: if_splits)
    from Some Cons.prems have r: "r = (sc, d)" and ty: "ty = take (length t) s"
      by (auto split: prod.splits)
    from ci ty have "toLowerCase ty = t"
      by (simp add: startsWithCI_def)
    moreover from m r have "\<forall>x. sc = Some x \<longrightarrow> x \<noteq> [] \<and> (\<forall>ch \<in> set x. isScopeChar ch)"
      using match_after_type_scope by blast
    ultimately show ?thesis by simp
  qed
qed

lemma not_isScopeChar_colon: "\<not> isScopeChar CHR '':''"
  by code_simp

lemma parsed_commit_colon_free:
  assumes "parseConventionalCommit r = Some c"
  shows "cc_type c \<in> set commit_types"
    and "CHR '':'' \<notin> set (cc_type c)"
    and "\<forall>s. cc_scope c = Some s \<longrightarrow> s \<noteq> [] \<and> CHR '':'' \<notin> set s"
proof -
  from assms obtain ty sc d where
    m: "match_types commit_types (subject r) = Some (ty, sc, d)"
    and c: "cc_type c = toLowerCase ty" "cc_scope c = sc"
    by (auto simp: parseConventionalCommit_def split: option.splits)
  from match_types_result[OF m] c
  show t: "cc_type c \<in> set commit_types"
    and "\<forall>s. cc_scope c = Some s \<longrightarrow> s \<noteq> [] \<and> CHR '':'' \<notin> set s"
    using not_isScopeChar_colon by auto
  have "\<forall>t \<in> set commit_types. CHR '':'' \<notin> set t"
    by code_simp
  with t show "CHR '':'' \<notin> set (cc_type c)"
    by blast
qed

text \<open>
  Claim C8. Two commits collide in the deduplication set exactly when their keys, the
  lower-cased \<open>type:scope:subject\<close> with the empty string for an absent scope, are equal.
  Commits that agree on type, scope and subject up to letter case collide, whatever their
  hashes. Commits whose type and scope hold no colon and whose scope is not the empty
  string (every commit the classifier produces is such, see \<open>parsed_commit_colon_free\<close>)
  never collide when they differ, beyond letter case, in one of the three components.
\<close>

theorem dedup_collision:
  "(has (add seen c1) c2 \<longleftrightarrow>
      toLowerCase (cc_type c1 @ '':'' @ (case cc_scope c1 of None \<Rightarrow> [] | Some s \<Rightarrow> s) @ '':'' @
                   cc_subject c1)
      = toLowerCase (cc_type c2 @ '':'' @ (case cc_scope c2 of None \<Rightarrow> [] | Some s \<Rightarrow> s) @ '':'' @
                   cc_subject c2)
      \<or> has seen c2)
   \<and> (toLowerCase (cc_type c1) = toLowerCase (cc_type c2)
        \<and> map_option toLowerCase (cc_scope c1) = map_option toLowerCase (cc_scope c2)
        \<and> toLowerCase (cc_subject c1) = toLowerCase (cc_subject c2)
      \<longrightarrow> has (add seen c1) c2)
   \<and> (CHR '':'' \<notin> set (cc_type c1) \<and> CHR '':'' \<notin> set (cc_type c2)
        \<and> (\<forall>s. cc_scope c1 = Some s \<longrightarrow> s \<noteq> [] \<and> CHR '':'' \<notin> set s)
        \<and> (\<forall>s. cc_scope c2 = Some s \<longrightarrow> s \<noteq> [] \<and> CHR '':'' \<notin> set s)
        \<and> \<not> has seen c2
        \<and> \<not> (toLowerCase (cc_type c1) = toLowerCase (cc_type c2)
              \<and> map_option toLowerCase (cc_scope c1) = map_option toLowerCase (cc_scope c2)
              \<and> toLowerCase (cc_subject c1) = toLowerCase (cc_subject c2))
      \<longrightarrow> \<not> has (add seen c1) c2)"
proof (intro conjI impI)
  show "has (add seen c1) c2 \<longleftrightarrow>
      toLowerCase (cc_type c1 @ '':'' @ (case cc_scope c1 of None \<Rightarrow> [] | Some s \<Rightarrow> s) @ '':'' @
                   cc_subject c1)
      = toLowerCase (cc_type c2 @ '':'' @ (case cc_scope c2 of None \<Rightarrow> [] | Some s \<Rightarrow> s) @ '':'' @
                   cc_subject c2)
      \<or> has seen c2"
    by (auto simp: has_def add_def getKey_def)
next
  assume "toLowerCase (cc_type c1) = toLowerCase (cc_type c2)
        \<and> map_option toLowerCase (cc_scope c1) = map_option toLowerCase (cc_scope c2)
        \<and> toLowerCase (cc_subject c1) = toLowerCase (cc_subject c2)"
  then have "getKey c1 = getKey c2"
    by (cases "cc_scope c1"; cases "cc_scope c2") (auto simp: getKey_def)
  then show "has (add seen c1) c2"
    by (simp add: has_def add_def)
next
  assume h: "CHR '':'' \<notin> set (cc_type c1) \<and> CHR '':'' \<notin> set (cc_type c2)
        \<and> (\<forall>s. cc_scope c1 = Some s \<longrightarrow> s \<noteq> [] \<and> CHR '':'' \<notin> set s)
        \<and> (\<forall>s. cc_scope c2 = Some s \<longrightarrow> s \<noteq> [] \<and> CHR '':'' \<notin> set s)
        \<and> \<not> has seen c2
        \<and> \<not> (toLowerCase (cc_type c1) = toLowerCase (cc_type c2)
              \<and> map_option toLowerCase (cc_scope c1) = map_option toLowerCase (cc_scope c2)
              \<and> toLowerCase (cc_subject c1) = toLowerCase (cc_subject c2))"
  let ?sc = "\<lambda>c. case cc_scope c of None \<Rightarrow> [] | Some s \<Rightarrow> s"
  show "\<not> has (add seen c1) c2"
  proof
    assume "has (add seen c1) c2"
    with h have "getKey c1 = getKey c2"
      by (auto simp: has_def add_def)
    then have k: "toLowerCase (cc_type c1) @ CHR '':'' # (toLowerCase (?sc c1) @ CHR '':'' # toLowerCase (cc_subject c1))
               = toLowerCase (cc_type c2) @ CHR '':'' # (toLowerCase (?sc c2) @ CHR '':'' # toLowerCase (cc_subject c2))"
      by (simp add: getKey_def)
    from h have t: "CHR '':'' \<notin> set (toLowerCase (cc_type c1))" "CHR '':'' \<notin> set (toLowerCase (cc_type c2))"
      by simp_all
    from split_at_separator[OF t k]
    have ty: "toLowerCase (cc_type c1) = toLowerCase (cc_type c2)"
      and k2: "toLowerCase (?sc c1) @ CHR '':'' # toLowerCase (cc_subject c1)
             = toLowerCase (?sc c2) @ CHR '':'' # toLowerCase (cc_subject c2)"
      by simp_all
    from h have s: "CHR '':'' \<notin> set (toLowerCase (?sc c1))" "CHR '':'' \<notin> set (toLowerCase (?sc c2))"
      by (auto split: option.splits)
    from split_at_separator[OF s k2]
    have sc: "toLowerCase (?sc c1) = toLowerCase (?sc c2)"
      and su: "toLowerCase (cc_subject c1) = toLowerCase (cc_subject c2)"
      by simp_all
    from sc h have "map_option toLowerCase (cc_scope c1) = map_option toLowerCase (cc_scope c2)"
      by (cases "cc_scope c1"; cases "cc_scope c2") auto
    with ty su h show False
      by blast
  qed
qed

text \<open>
  \<open>(feat, ui, x)\<close> collides with \<open>(FEAT, UI, X)\<close> under another hash, and not with
  \<open>(feat, api, x)\<close>.
\<close>

theorem dedup_collision_witness:
  "has (add {} \<lparr>cc_hash = ''abc123'', cc_type = ''feat'', cc_scope = Some ''ui'', cc_subject = ''x'',
                cc_raw = ''feat(ui): x'', cc_breaking = False\<rparr>)
       \<lparr>cc_hash = ''def456'', cc_type = ''FEAT'', cc_scope = Some ''UI'', cc_subject = ''X'',
         cc_raw = ''FEAT(UI): X'', cc_breaking = False\<rparr>
   \<and> \<not> has (add {} \<lparr>cc_hash = ''abc123'', cc_type = ''feat'', cc_scope = Some ''ui'', cc_subject = ''x'',
                cc_raw = ''feat(ui): x'', cc_breaking = False\<rparr>)
       \<lparr>cc_hash = ''abc123'', cc_type = ''feat'', cc_scope = Some ''api'', cc_subject = ''x'',
         cc_raw = ''feat(api): x'', cc_breaking = False\<rparr>"
proof -
  let ?a = "\<lparr>cc_hash = ''abc123'', cc_type = ''feat'', cc_scope = Some ''ui'', cc_subject = ''x'',
                cc_raw = ''feat(ui): x'', cc_breaking = False\<rparr>"
  let ?b = "\<lparr>cc_hash = ''def456'', cc_type = ''FEAT'', cc_scope = Some ''UI'', cc_subject = ''X'',
         cc_raw = ''FEAT(UI): X'', cc_breaking = False\<rparr>"
  let ?c = "\<lparr>cc_hash = ''abc123'', cc_type = ''feat'', cc_scope = Some ''api'', cc_subject = ''x'',
         cc_raw = ''feat(api): x'', cc_breaking = False\<rparr>"
  have same: "toLowerCase (cc_type ?a) = toLowerCase (cc_type ?b)
        \<and> map_option toLowerCase (cc_scope ?a) = map_option toLowerCase (cc_scope ?b)
        \<and> toLowerCase (cc_subject ?a) = toLowerCase (cc_subject ?b)"
    by code_simp
  have differ: "CHR '':'' \<notin> set (cc_type ?a) \<and> CHR '':'' \<notin> set (cc_type ?c)
        \<and> (\<forall>s. cc_scope ?a = Some s \<longrightarrow> s \<noteq> [] \<and> CHR '':'' \<notin> set s)
        \<and> (\<forall>s. cc_scope ?c = Some s \<longrightarrow> s \<noteq> [] \<and> CHR '':'' \<notin> set s)
        \<and> \<not> has {} ?c
        \<and> \<not> (toLowerCase (cc_type ?a) = toLowerCase (cc_type ?c)
              \<and> map_option toLowerCase (cc_scope ?a) = map_option toLowerCase (cc_scope ?c)
              \<and> toLowerCase (cc_subject ?a) = toLowerCase (cc_subject ?c))"
    by (simp add: has_def)
  from dedup_collision[of "{}" ?a ?b] same have 1: "has (add {} ?a) ?b"
    by blast
  from dedup_collision[of "{}" ?a ?c] differ have 2: "\<not> has (add {} ?a) ?c"
    by blast
  from 1 2 show ?thesis by blast
qed

section \<open>Properties of the version bump advisor\<close>

text \<open>
  Claim C3. The claim says that a fix after a last tag that is no pre-release gives the
  patch-incremented baseline, also for a tag such as \<open>release-1.0.0\<close>. The advisor takes
  every last tag with a hyphen for a pre-release: for \<open>release-1.0.0\<close>, whose version
  \<open>1.0.0\<close> has no pre-release component, the category is patch and the suggested version
  stays \<open>1.0.0\<close>.
\<close>

theorem hyphenated_stable_tag_is_not_bumped:
  "suggestNextVersion [\<lparr>hash = ''abc123'', subject = ''fix: resolve bug'', body = ''''\<rparr>]
     (Some ''release-1.0.0'')
   = \<lparr>currentVersion = ''1.0.0'', nextVersion = ''1.0.0'', bumpType = BumpPatch,
      hasBreaking = False, hasFeatures = False, hasFixes = True\<rparr>
   \<and> extractVersion ''release-1.0.0'' = Some ''1.0.0'' \<and> \<not> isPreRelease ''1.0.0''"
  by code_simp

lemma allDigits_takeWhile: "takeWhile isDigit s \<noteq> [] \<Longrightarrow> allDigits (takeWhile isDigit s)"
  by (auto simp: allDigits_def list_all_iff dest: set_takeWhileD)

lemma main_version_at_Some:
  assumes "main_version_at s = Some (m, r)"
  shows "\<exists>a b c. m = a @ ''.'' @ b @ ''.'' @ c \<and> allDigits a \<and> allDigits b \<and> allDigits c \<and> s = m @ r"
proof -
  let ?a = "takeWhile isDigit s" and ?r1 = "dropWhile isDigit s"
  from assms have a: "?a \<noteq> []"
    by (auto simp: main_version_at_def Let_def split: if_splits)
  with assms obtain r1' where r1: "?r1 = CHR ''.'' # r1'"
    by (auto simp: main_version_at_def Let_def split: if_splits list.splits)
  let ?b = "takeWhile isDigit r1'" and ?r2 = "dropWhile isDigit r1'"
  from assms a r1 have b: "?b \<noteq> []"
    by (auto simp: main_version_at_def Let_def split: if_splits list.splits)
  with assms a r1 obtain r2' where r2: "?r2 = CHR ''.'' # r2'"
    by (auto simp: main_version_at_def Let_def split: if_splits list.splits)
  let ?c = "takeWhile isDigit r2'"
  from assms a r1 b r2 have c: "?c \<noteq> []" and m: "m = ?a @ ''.'' @ ?b @ ''.'' @ ?c"
    and r: "r = dropWhile isDigit r2'"
    by (auto simp: main_version_at_def Let_def split: if_splits list.splits)
  have "s = ?a @ ?r1" by simp
  also have "?r1 = CHR ''.'' # (?b @ ?r2)" using r1 by simp
  also have "?r2 = CHR ''.'' # (?c @ dropWhile isDigit r2')" using r2 by simp
  finally have "s = m @ r" using m r by simp
  with a b c m show ?thesis
    using allDigits_takeWhile by blast
qed

lemma plain_version_at_Some:
  assumes "plain_version_at s = Some m"
  shows "\<exists>pre post a b c. s = pre @ m @ post \<and> m = a @ ''.'' @ b @ ''.'' @ c
           \<and> allDigits a \<and> allDigits b \<and> allDigits c"
proof -
  from assms consider
    (v) r x where "s = CHR ''v'' # r" "main_version_at r = Some (m, x)"
    | (plain) x where "main_version_at s = Some (m, x)"
    by (auto simp: plain_version_at_def split: list.splits if_splits option.splits)
  then show ?thesis
  proof cases
    case v
    from main_version_at_Some[OF v(2)] v(1) show ?thesis
      by (metis append_Cons append_Nil)
  next
    case plain
    from main_version_at_Some[OF plain] show ?thesis
      by (metis append_Nil)
  qed
qed

lemma plain_version_search_Some:
  assumes "plain_version_search s = Some m"
  shows "\<exists>pre post a b c. s = pre @ m @ post \<and> m = a @ ''.'' @ b @ ''.'' @ c
           \<and> allDigits a \<and> allDigits b \<and> allDigits c"
  using assms
proof (induction s)
  case Nil
  then show ?case by simp
next
  case (Cons ch s)
  show ?case
  proof (cases "plain_version_at (ch # s)")
    case None
    with Cons.prems have "plain_version_search s = Some m" by simp
    from Cons.IH[OF this] obtain pre post a b c where
      "s = pre @ m @ post" "m = a @ ''.'' @ b @ ''.'' @ c" "allDigits a" "allDigits b" "allDigits c"
      by blast
    then have "ch # s = (ch # pre) @ m @ post" by simp
    with \<open>m = a @ ''.'' @ b @ ''.'' @ c\<close> \<open>allDigits a\<close> \<open>allDigits b\<close> \<open>allDigits c\<close>
    show ?thesis by blast
  next
    case (Some x)
    with Cons.prems have "x = m" by simp
    with Some plain_version_at_Some show ?thesis by blast
  qed
qed

lemma extractVersionFromTag_default:
  assumes "\<not> (\<exists>pre a b c post. t = pre @ a @ ''.'' @ b @ ''.'' @ c @ post
                \<and> allDigits a \<and> allDigits b \<and> allDigits c)"
  shows "extractVersionFromTag t = ''0.0.0''"
proof (cases "plain_version_search t")
  case None
  then show ?thesis by (simp add: extractVersionFromTag_def)
next
  case (Some m)
  from plain_version_search_Some[OF Some] obtain pre post a b c where
    "t = pre @ m @ post" "m = a @ ''.'' @ b @ ''.'' @ c" "allDigits a" "allDigits b" "allDigits c"
    by blast
  then have "t = pre @ a @ ''.'' @ b @ ''.'' @ c @ post" by simp
  with assms \<open>allDigits a\<close> \<open>allDigits b\<close> \<open>allDigits c\<close> show ?thesis by blast
qed

lemma suggestNextVersion_currentVersion:
  "currentVersion (suggestNextVersion cs lastTag) =
     (case lastTag of None \<Rightarrow> ''0.0.0''
      | Some t \<Rightarrow> if t \<noteq> [] then extractVersionFromTag t else ''0.0.0'')"
  by (simp add: suggestNextVersion_def Let_def)

lemma suggestNextVersion_cong:
  assumes "(case l1 of None \<Rightarrow> ''0.0.0''
            | Some t \<Rightarrow> if t \<noteq> [] then extractVersionFromTag t else ''0.0.0'')
         = (case l2 of None \<Rightarrow> ''0.0.0''
            | Some t \<Rightarrow> if t \<noteq> [] then extractVersionFromTag t else ''0.0.0'')"
    and "(case l1 of None \<Rightarrow> False | Some t \<Rightarrow> t \<noteq> [] \<and> CHR ''-'' \<in> set t)
         = (case l2 of None \<Rightarrow> False | Some t \<Rightarrow> t \<noteq> [] \<and> CHR ''-'' \<in> set t)"
  shows "suggestNextVersion cs l1 = suggestNextVersion cs l2"
  by (simp only: suggestNextVersion_def Let_def assms)

lemma suggestNextVersion_bumpType_cong:
  assumes "(case l1 of None \<Rightarrow> ''0.0.0''
            | Some t \<Rightarrow> if t \<noteq> [] then extractVersionFromTag t else ''0.0.0'')
         = (case l2 of None \<Rightarrow> ''0.0.0''
            | Some t \<Rightarrow> if t \<noteq> [] then extractVersionFromTag t else ''0.0.0'')"
  shows "bumpType (suggestNextVersion cs l1) = bumpType (suggestNextVersion cs l2)"
  using assms by (simp add: suggestNextVersion_def Let_def)

text \<open>
  Claim C10. For a last tag that holds no \<open>MAJOR.MINOR.PATCH\<close> substring the advisor does
  not fail: the baseline is \<open>0.0.0\<close>, as it is when there is no last tag, and \<open>0.0.0\<close> is
  the current version of the result. The bump category is that of the run without a tag,
  and for a tag without a hyphen the whole result is.
\<close>

theorem unparseable_last_tag_uses_zero_baseline:
  assumes "\<not> (\<exists>pre a b c post. t = pre @ a @ ''.'' @ b @ ''.'' @ c @ post
                \<and> allDigits a \<and> allDigits b \<and> allDigits c)"
  shows "currentVersion (suggestNextVersion cs (Some t)) = ''0.0.0''
       \<and> currentVersion (suggestNextVersion cs None) = ''0.0.0''
       \<and> bumpType (suggestNextVersion cs (Some t)) = bumpType (suggestNextVersion cs None)
       \<and> (CHR ''-'' \<notin> set t \<longrightarrow> suggestNextVersion cs (Some t) = suggestNextVersion cs None)"
proof -
  have e: "extractVersionFromTag t = ''0.0.0''"
    by (rule extractVersionFromTag_default[OF assms])
  have 1: "currentVersion (suggestNextVersion cs (Some t)) = ''0.0.0''"
    by (simp add: suggestNextVersion_currentVersion e)
  have 2: "currentVersion (suggestNextVersion cs None) = ''0.0.0''"
    by (simp add: suggestNextVersion_currentVersion)
  have 3: "bumpType (suggestNextVersion cs (Some t)) = bumpType (suggestNextVersion cs None)"
    by (rule suggestNextVersion_bumpType_cong) (simp add: e)
  have 4: "suggestNextVersion cs (Some t) = suggestNextVersion cs None" if "CHR ''-'' \<notin> set t"
    by (rule suggestNextVersion_cong) (simp_all add: e that)
  from 1 2 3 4 show ?thesis by blast
qed

text \<open>
  The tag \<open>foo\<close> after a fix: the result of the run without a tag, \<open>0.0.1\<close> from \<open>0.0.0\<close>.
\<close>

theorem unparseable_last_tag_uses_zero_baseline_witness:
  "currentVersion (suggestNextVersion [\<lparr>hash = ''abc123'', subject = ''fix: resolve bug'', body = ''''\<rparr>]
      (Some ''foo'')) = ''0.0.0''
   \<and> suggestNextVersion [\<lparr>hash = ''abc123'', subject = ''fix: resolve bug'', body = ''''\<rparr>] (Some ''foo'')
     = suggestNextVersion [\<lparr>hash = ''abc123'', subject = ''fix: resolve bug'', body = ''''\<rparr>] None
   \<and> nextVersion (suggestNextVersion [\<lparr>hash = ''abc123'', subject = ''fix: resolve bug'', body = ''''\<rparr>]
      (Some ''foo'')) = ''0.0.1''"
proof -
  have nodigit: "\<forall>ch \<in> set ''foo''. \<not> isDigit ch"
    by code_simp
  have h: "\<not> (\<exists>pre a b c post. ''foo'' = pre @ a @ ''.'' @ b @ ''.'' @ c @ post
                \<and> allDigits a \<and> allDigits b \<and> allDigits c)"
  proof
    assume "\<exists>pre a b c post. ''foo'' = pre @ a @ ''.'' @ b @ ''.'' @ c @ post
                \<and> allDigits a \<and> allDigits b \<and> allDigits c"
    then obtain pre a b c post where e: "''foo'' = pre @ a @ ''.'' @ b @ ''.'' @ c @ post"
      and a: "allDigits a" by blast
    from a obtain x where x: "x \<in> set a" "isDigit x"
      by (cases a) (auto simp: allDigits_def)
    from x(1) have "x \<in> set (pre @ a @ ''.'' @ b @ ''.'' @ c @ post)" by simp
    with e have "x \<in> set ''foo''" by metis
    with nodigit x(2) show False by blast
  qed
  have nohyphen: "CHR ''-'' \<notin> set ''foo''"
    by simp
  have n: "nextVersion (suggestNextVersion [\<lparr>hash = ''abc123'', subject = ''fix: resolve bug'', body = ''''\<rparr>]
      None) = ''0.0.1''"
    by code_simp
  from unparseable_last_tag_uses_zero_baseline[OF h,
      of "[\<lparr>hash = ''abc123'', subject = ''fix: resolve bug'', body = ''''\<rparr>]"] nohyphen n
  show ?thesis by simp
qed


























section \<open>Properties of the version tag normalizer\<close>

subsection \<open>Sorting by a comparator\<close>

lemma sort_by_Nil [simp]: "sort_by cmp [] = []"
  by (simp add: sort_by_def)

lemma sort_by_Cons [simp]: "sort_by cmp (x # xs) = insert_by cmp x (sort_by cmp xs)"
  by (simp add: sort_by_def)

lemma set_insert_by [simp]: "set (insert_by cmp x ys) = insert x (set ys)"
  by (induction ys) auto

lemma set_sort_by [simp]: "set (sort_by cmp xs) = set xs"
  by (induction xs) auto

lemma length_insert_by [simp]: "length (insert_by cmp x ys) = Suc (length ys)"
  by (induction ys) auto

lemma length_sort_by [simp]: "length (sort_by cmp xs) = length xs"
  by (induction xs) auto

lemma distinct_insert_by [simp]: "distinct (insert_by cmp x ys) \<longleftrightarrow> x \<notin> set ys \<and> distinct ys"
  by (induction ys) auto

lemma distinct_sort_by [simp]: "distinct (sort_by cmp xs) \<longleftrightarrow> distinct xs"
  by (induction xs) auto

lemma sorted_insert_by:
  assumes total: "\<forall>a \<in> A. \<forall>b \<in> A. cmp a b \<le> 0 \<or> cmp b a \<le> 0"
    and trans: "\<forall>a \<in> A. \<forall>b \<in> A. \<forall>c \<in> A. cmp a b \<le> 0 \<longrightarrow> cmp b c \<le> 0 \<longrightarrow> cmp a c \<le> 0"
    and "x \<in> A" and "set ys \<subseteq> A" and "sorted_wrt (\<lambda>a b. cmp a b \<le> 0) ys"
  shows "sorted_wrt (\<lambda>a b. cmp a b \<le> 0) (insert_by cmp x ys)"
  using assms(3-)
proof (induction ys)
  case Nil
  then show ?case by simp
next
  case (Cons y ys)
  from Cons.prems have xA: "x \<in> A" and yA: "y \<in> A" and ysA: "set ys \<subseteq> A"
    and yle: "\<forall>z \<in> set ys. cmp y z \<le> 0" and sys: "sorted_wrt (\<lambda>a b. cmp a b \<le> 0) ys"
    by simp_all
  show ?case
  proof (cases "cmp x y \<le> 0")
    case True
    have "cmp x z \<le> 0" if "z \<in> set ys" for z
    proof -
      from that yle have "cmp y z \<le> 0" by blast
      moreover from that ysA have "z \<in> A" by blast
      ultimately show ?thesis
        using trans xA yA True by blast
    qed
    with True yle sys show ?thesis by simp
  next
    case False
    with total xA yA have yx: "cmp y x \<le> 0" by blast
    from Cons.IH[OF xA ysA sys] have "sorted_wrt (\<lambda>a b. cmp a b \<le> 0) (insert_by cmp x ys)" .
    with False yx yle show ?thesis by simp
  qed
qed

lemma sorted_sort_by:
  assumes total: "\<forall>a \<in> A. \<forall>b \<in> A. cmp a b \<le> 0 \<or> cmp b a \<le> 0"
    and trans: "\<forall>a \<in> A. \<forall>b \<in> A. \<forall>c \<in> A. cmp a b \<le> 0 \<longrightarrow> cmp b c \<le> 0 \<longrightarrow> cmp a c \<le> 0"
    and "set xs \<subseteq> A"
  shows "sorted_wrt (\<lambda>a b. cmp a b \<le> 0) (sort_by cmp xs)"
  using assms(3)
proof (induction xs)
  case Nil
  then show ?case by simp
next
  case (Cons x xs)
  then have s: "sorted_wrt (\<lambda>a b. cmp a b \<le> 0) (sort_by cmp xs)" by simp
  from Cons.prems have xA: "x \<in> A" and sub: "set (sort_by cmp xs) \<subseteq> A" by simp_all
  from sorted_insert_by[OF total trans xA sub s] show ?case by simp
qed

lemma sort_by_sorted_id:
  assumes "sorted_wrt (\<lambda>a b. cmp a b \<le> 0) xs"
  shows "sort_by cmp xs = xs"
  using assms
proof (induction xs)
  case Nil
  then show ?case by simp
next
  case (Cons x xs)
  then have "sort_by cmp xs = xs" by simp
  with Cons.prems show ?case
    by (cases xs) simp_all
qed

lemma hd_sort_by_least:
  assumes total: "\<forall>a \<in> set xs. \<forall>b \<in> set xs. cmp a b \<le> 0 \<or> cmp b a \<le> 0"
    and trans: "\<forall>a \<in> set xs. \<forall>b \<in> set xs. \<forall>c \<in> set xs. cmp a b \<le> 0 \<longrightarrow> cmp b c \<le> 0 \<longrightarrow> cmp a c \<le> 0"
    and "sort_by cmp xs = first # rest"
  shows "first \<in> set xs \<and> (\<forall>y \<in> set xs. cmp first y \<le> 0)"
proof -
  have s: "sorted_wrt (\<lambda>a b. cmp a b \<le> 0) (sort_by cmp xs)"
    by (rule sorted_sort_by[OF total trans]) simp
  have m: "set xs = insert first (set rest)"
    using set_sort_by[of cmp xs] assms(3) by simp
  from s assms(3) have r: "\<forall>y \<in> set rest. cmp first y \<le> 0" by simp
  from m have f: "first \<in> set xs" by simp
  with total have "cmp first first \<le> 0" by blast
  with r m f show ?thesis by simp
qed

subsection \<open>The comparators\<close>

lemma compareTagInfo_total: "compareTagInfo a b \<le> 0 \<or> compareTagInfo b a \<le> 0"
  by (auto simp: compareTagInfo_def)

lemma compareTagInfo_trans:
  "compareTagInfo a b \<le> 0 \<Longrightarrow> compareTagInfo b c \<le> 0 \<Longrightarrow> compareTagInfo a c \<le> 0"
  by (auto simp: compareTagInfo_def split: if_splits)

lemma compareTagInfo_le:
  "compareTagInfo a b \<le> 0 \<longleftrightarrow>
     (isVPrefixed (original a) \<and> \<not> isVPrefixed (original b)) \<or>
     (isVPrefixed (original a) = isVPrefixed (original b) \<and> length (original a) \<le> length (original b))"
  by (auto simp: compareTagInfo_def)

subsection \<open>Decimal numerals\<close>

lemma isDigit_range:
  assumes "isDigit c"
  shows "48 \<le> (of_char c :: nat) \<and> (of_char c :: nat) \<le> 57"
  using assms by (auto simp: isDigit_def)

lemma isDigit_digit_val:
  assumes "isDigit c"
  shows "digit_val c < 10" and "char_of (48 + digit_val c) = c"
proof -
  from isDigit_range[OF assms] show "digit_val c < 10"
    unfolding digit_val_def by linarith
  from isDigit_range[OF assms] have "48 + digit_val c = (of_char c :: nat)"
    unfolding digit_val_def by linarith
  then show "char_of (48 + digit_val c) = c"
    by simp
qed

lemma isDigit_nonzero:
  assumes "isDigit c" and "c \<noteq> CHR ''0''"
  shows "0 < digit_val c"
  using assms by (auto simp: isDigit_def digit_val_def)

lemma nat_of_digits_snoc: "nat_of_digits (s @ [c]) = 10 * nat_of_digits s + digit_val c"
  by (simp add: nat_of_digits_def)

lemma nat_of_digits_Nil [simp]: "nat_of_digits [] = 0"
  by (simp add: nat_of_digits_def)

lemma nat_of_digits_single [simp]: "nat_of_digits [c] = digit_val c"
  by (simp add: nat_of_digits_def)

lemma allDigits_snoc: "allDigits (s @ [c]) \<longleftrightarrow> (s = [] \<or> allDigits s) \<and> isDigit c"
  by (auto simp: allDigits_def)

lemma nat_of_digits_pos:
  assumes "allDigits s" and "hd s \<noteq> CHR ''0''"
  shows "0 < nat_of_digits s"
  using assms
proof (induction s rule: rev_induct)
  case Nil
  then show ?case by (simp add: allDigits_def)
next
  case (snoc c s)
  show ?case
  proof (cases "s = []")
    case True
    with snoc.prems have "isDigit c" and "c \<noteq> CHR ''0''"
      by (simp_all add: allDigits_def)
    with True show ?thesis
      using isDigit_nonzero[of c] by simp
  next
    case False
    with snoc.prems have "allDigits s" and "hd s \<noteq> CHR ''0''"
      by (simp_all add: allDigits_snoc)
    with snoc.IH have "0 < nat_of_digits s" by simp
    then show ?thesis by (simp add: nat_of_digits_snoc)
  qed
qed

lemma string_of_nat_of_digits:
  assumes "isNumericIdentifier s"
  shows "string_of_nat (nat_of_digits s) = s"
proof -
  have "allDigits s \<Longrightarrow> s = ''0'' \<or> hd s \<noteq> CHR ''0'' \<Longrightarrow> string_of_nat (nat_of_digits s) = s"
  proof (induction s rule: rev_induct)
    case Nil
    then show ?case by (simp add: allDigits_def)
  next
    case (snoc c s)
    from snoc.prems have c: "isDigit c" by (simp add: allDigits_snoc)
    show ?case
    proof (cases "s = []")
      case True
      with c show ?thesis
        using isDigit_digit_val[of c]
        by (simp add: nat_of_digits_snoc string_of_nat.simps[of "digit_val c"])
    next
      case False
      with snoc.prems have a: "allDigits s" and h: "hd s \<noteq> CHR ''0''"
        by (auto simp: allDigits_snoc)
      from snoc.IH[OF a] h have ih: "string_of_nat (nat_of_digits s) = s" by simp
      from nat_of_digits_pos[OF a h] have p: "0 < nat_of_digits s" .
      let ?n = "10 * nat_of_digits s + digit_val c"
      from p have "\<not> ?n < 10" by simp
      moreover from isDigit_digit_val[OF c] have "?n div 10 = nat_of_digits s" and "?n mod 10 = digit_val c"
        by simp_all
      ultimately have "string_of_nat ?n = string_of_nat (nat_of_digits s) @ [char_of (48 + digit_val c)]"
        by (simp add: string_of_nat.simps[of ?n])
      with ih isDigit_digit_val[OF c] show ?thesis
        by (simp add: nat_of_digits_snoc)
    qed
  qed
  with assms show ?thesis by (simp add: isNumericIdentifier_def)
qed

lemma nat_of_digits_inj:
  assumes "isNumericIdentifier a" and "isNumericIdentifier b"
    and "nat_of_digits a = nat_of_digits b"
  shows "a = b"
  using assms string_of_nat_of_digits by metis

subsection \<open>Precedence as an order on keys\<close>

lemma compare_nat_le [simp]: "compare_nat a b \<le> 0 \<longleftrightarrow> a \<le> b"
  by (simp add: compare_nat_def)

lemma compare_nat_eq [simp]: "compare_nat a b = 0 \<longleftrightarrow> a = b"
  by (simp add: compare_nat_def)

lemma compareIdentifiers_le: "compareIdentifiers a b \<le> 0 \<longleftrightarrow> ident_key a \<le> ident_key b"
  by (cases a; cases b) (auto simp: ident_key_def)

lemma ident_key_inj:
  assumes "canonical_ident a" and "canonical_ident b" and "ident_key a = ident_key b"
  shows "a = b"
  using assms
  by (cases a; cases b) (auto simp: ident_key_def canonical_ident_def split: if_splits
      intro: nat_of_digits_inj)

lemma comparePreList_le:
  assumes "list_all canonical_ident xs" and "list_all canonical_ident ys"
  shows "comparePreList xs ys \<le> 0 \<longleftrightarrow> map ident_key xs \<le> map ident_key ys"
  using assms
proof (induction xs ys rule: comparePreList.induct)
  case (4 a as b bs)
  show ?case
  proof (cases "a = b")
    case True
    with 4 show ?thesis by simp
  next
    case False
    with 4 have "ident_key a \<noteq> ident_key b"
      using ident_key_inj by auto
    with False show ?thesis
      by (auto simp: compareIdentifiers_le)
  qed
qed simp_all

lemma compareSemVer_le:
  assumes "list_all canonical_ident (prerelease x)" and "list_all canonical_ident (prerelease y)"
  shows "compareSemVer x y \<le> 0 \<longleftrightarrow> semver_key x \<le> semver_key y"
  using comparePreList_le[OF assms]
  by (auto simp: compareSemVer_def compareMain_def comparePre_def semver_key_def
      compare_nat_def split: if_splits)

subsection \<open>Valid versions are totally pre-ordered\<close>

lemma prerelease_ident_canonical:
  assumes "isPrereleaseIdentifier p"
  shows "canonical_ident (prerelease_ident p)"
  using assms
  by (auto simp: prerelease_ident_def canonical_ident_def isPrereleaseIdentifier_def
      isNonNumericIdentifier_def allDigits_def)

lemma semver_parse_canonical:
  assumes "semver_parse s = Some v"
  shows "list_all canonical_ident (prerelease v)"
proof -
  from assms obtain pres where "prerelease v = map prerelease_ident pres"
    and "list_all isPrereleaseIdentifier pres"
    by (auto simp: semver_parse_def Let_def split: if_splits prod.splits list.splits)
  then show ?thesis
    using prerelease_ident_canonical by (auto simp: list_all_iff)
qed

lemma semver_compare_le:
  assumes "semver_parse a = Some x" and "semver_parse b = Some y"
  shows "semver_compare a b \<le> 0 \<longleftrightarrow> semver_key x \<le> semver_key y"
  using assms compareSemVer_le[OF semver_parse_canonical[OF assms(1)] semver_parse_canonical[OF assms(2)]]
  by (simp add: semver_compare_def)

lemma semver_compare_total:
  "\<forall>a \<in> {s. semver_parse s \<noteq> None}. \<forall>b \<in> {s. semver_parse s \<noteq> None}.
     semver_compare a b \<le> 0 \<or> semver_compare b a \<le> 0"
  by (auto simp: semver_compare_le)

lemma semver_compare_trans:
  "\<forall>a \<in> {s. semver_parse s \<noteq> None}. \<forall>b \<in> {s. semver_parse s \<noteq> None}.
   \<forall>c \<in> {s. semver_parse s \<noteq> None}.
     semver_compare a b \<le> 0 \<longrightarrow> semver_compare b c \<le> 0 \<longrightarrow> semver_compare a c \<le> 0"
  by (auto simp: semver_compare_le)

subsection \<open>The version map\<close>

lemma map_fst_map_push:
  "map fst (map_push k v m) = (if k \<in> fst ` set m then map fst m else map fst m @ [k])"
  by (induction m) force+

lemma map_of_map_push:
  "map_of (map_push k v m) k' =
     (if k' = k then Some ((case map_of m k of None \<Rightarrow> [] | Some vs \<Rightarrow> vs) @ [v])
      else map_of m k')"
  by (induction m) auto

lemma semver_parse_Nil: "semver_parse [] = None"
  by code_simp

lemma versionMap_inv_step:
  assumes "versionMap_inv vm seen"
  shows "versionMap_inv (collect_tag vm t) (seen @ [t])"
proof -
  from assms have d: "distinct (map fst vm)"
    and i2: "\<And>k infos. map_of vm k = Some infos \<Longrightarrow>
        infos \<noteq> [] \<and> semver_parse k \<noteq> None \<and>
        infos = map (\<lambda>t. \<lparr> original = t, clean = k, display = ''v'' @ k \<rparr>)
                  (filter (\<lambda>t. extractVersion t = Some k) seen)"
    and i3: "\<And>u k. u \<in> set seen \<Longrightarrow> extractVersion u = Some k \<Longrightarrow> semver_parse k \<noteq> None \<Longrightarrow>
        map_of vm k \<noteq> None"
    unfolding versionMap_inv_def by blast+
  show ?thesis
  proof (cases "\<exists>cl. extractVersion t = Some cl \<and> semver_parse cl \<noteq> None")
    case False
    then have same: "collect_tag vm t = vm"
      by (auto simp: collect_tag_def semver_parse_Nil split: option.splits)
    have f: "filter (\<lambda>u. extractVersion u = Some k) (seen @ [t]) =
             filter (\<lambda>u. extractVersion u = Some k) seen" if "semver_parse k \<noteq> None" for k
      using False that by auto
    show ?thesis
      unfolding same versionMap_inv_def
    proof (intro conjI allI impI ballI)
      show "distinct (map fst vm)" by (rule d)
    next
      fix k infos assume m: "map_of vm k = Some infos"
      from i2[OF m] show "infos \<noteq> []" and "semver_parse k \<noteq> None" by blast+
      from i2[OF m] f[of k] show "infos = map (\<lambda>t. \<lparr> original = t, clean = k, display = ''v'' @ k \<rparr>)
                  (filter (\<lambda>t. extractVersion t = Some k) (seen @ [t]))"
        by simp
    next
      fix u k assume "u \<in> set (seen @ [t])" "extractVersion u = Some k" "semver_parse k \<noteq> None"
      with False i3 show "map_of vm k \<noteq> None" by auto
    qed
  next
    case True
    then obtain cl where e: "extractVersion t = Some cl" and p: "semver_parse cl \<noteq> None"
      by blast
    let ?info = "\<lparr> original = t, clean = cl, display = ''v'' @ cl \<rparr>"
    from p have "cl \<noteq> []" using semver_parse_Nil by auto
    with e p have step: "collect_tag vm t = map_push cl ?info vm"
      by (auto simp: collect_tag_def)
    show ?thesis
      unfolding step versionMap_inv_def
    proof (intro conjI allI impI ballI)
      show "distinct (map fst (map_push cl ?info vm))"
        using d by (simp add: map_fst_map_push)
    next
      fix k infos assume m: "map_of (map_push cl ?info vm) k = Some infos"
      show "infos \<noteq> []"
        using m by (auto simp: map_of_map_push split: if_splits dest: i2)
      show "semver_parse k \<noteq> None"
        using m p by (auto simp: map_of_map_push split: if_splits dest: i2)
      show "infos = map (\<lambda>t. \<lparr> original = t, clean = k, display = ''v'' @ k \<rparr>)
                  (filter (\<lambda>t. extractVersion t = Some k) (seen @ [t]))"
      proof (cases "k = cl")
        case False
        with m have "map_of vm k = Some infos" by (simp add: map_of_map_push)
        from i2[OF this] False e show ?thesis by simp
      next
        case True
        show ?thesis
        proof (cases "map_of vm cl")
          case None
          have "filter (\<lambda>u. extractVersion u = Some cl) seen = []"
            using i3[OF _ _ p] None by (auto simp: filter_empty_conv)
          with m True None e show ?thesis by (simp add: map_of_map_push)
        next
          case (Some vs)
          from i2[OF Some] m True Some e show ?thesis by (simp add: map_of_map_push)
        qed
      qed
    next
      fix u k assume "u \<in> set (seen @ [t])" "extractVersion u = Some k" "semver_parse k \<noteq> None"
      with e i3 show "map_of (map_push cl ?info vm) k \<noteq> None"
        by (auto simp: map_of_map_push)
    qed
  qed
qed

lemma versionMap_inv_foldl:
  assumes "versionMap_inv vm seen"
  shows "versionMap_inv (foldl collect_tag vm ts) (seen @ ts)"
  using assms
proof (induction ts arbitrary: vm seen)
  case Nil
  then show ?case by simp
next
  case (Cons t ts)
  from Cons.IH[OF versionMap_inv_step[OF Cons.prems, of t]] show ?case by simp
qed

lemma versionMap_inv_final: "versionMap_inv (foldl collect_tag [] ts) ts"
proof -
  have "versionMap_inv [] []"
    by (simp add: versionMap_inv_def)
  from versionMap_inv_foldl[OF this, of ts] show ?thesis
    by simp
qed

lemma versionMap_keys:
  "set (map fst (foldl collect_tag [] ts)) =
     {k. \<exists>t \<in> set ts. extractVersion t = Some k \<and> semver_parse k \<noteq> None}"
proof -
  let ?vm = "foldl collect_tag [] ts"
  from versionMap_inv_final[of ts] have d: "distinct (map fst ?vm)"
    and i2: "\<And>k infos. map_of ?vm k = Some infos \<Longrightarrow>
        infos \<noteq> [] \<and> semver_parse k \<noteq> None \<and>
        infos = map (\<lambda>t. \<lparr> original = t, clean = k, display = ''v'' @ k \<rparr>)
                  (filter (\<lambda>t. extractVersion t = Some k) ts)"
    and i3: "\<And>u k. u \<in> set ts \<Longrightarrow> extractVersion u = Some k \<Longrightarrow> semver_parse k \<noteq> None \<Longrightarrow>
        map_of ?vm k \<noteq> None"
    unfolding versionMap_inv_def by blast+
  show ?thesis
  proof (intro set_eqI iffI)
    fix k assume "k \<in> set (map fst ?vm)"
    then obtain infos where m: "map_of ?vm k = Some infos"
      by (metis map_of_eq_None_iff not_Some_eq set_map)
    from i2[OF m] have ne: "filter (\<lambda>t. extractVersion t = Some k) ts \<noteq> []"
      and p: "semver_parse k \<noteq> None"
      by auto
    from ne obtain t where "t \<in> set ts" "extractVersion t = Some k"
      by (auto simp: filter_empty_conv)
    with p show "k \<in> {k. \<exists>t \<in> set ts. extractVersion t = Some k \<and> semver_parse k \<noteq> None}"
      by blast
  next
    fix k assume "k \<in> {k. \<exists>t \<in> set ts. extractVersion t = Some k \<and> semver_parse k \<noteq> None}"
    then obtain t where "t \<in> set ts" "extractVersion t = Some k" "semver_parse k \<noteq> None"
      by blast
    from i3[OF this] show "k \<in> set (map fst ?vm)"
      by (simp add: map_of_eq_None_iff)
  qed
qed

lemma canonical_entry_nonempty:
  assumes "infos \<noteq> []"
  shows "\<exists>first rest. sort_by compareTagInfo infos = first # rest \<and>
           canonical_entry (k, infos) = Some (k, first)"
proof -
  from assms have "length (sort_by compareTagInfo infos) \<noteq> 0" by simp
  then obtain first rest where "sort_by compareTagInfo infos = first # rest"
    by (cases "sort_by compareTagInfo infos") auto
  then show ?thesis by (simp add: canonical_entry_def)
qed

lemma map_of_canonical_entries:
  assumes "\<forall>e \<in> set m. snd e \<noteq> []"
  shows "map_of (List.map_filter canonical_entry m) k =
           (case map_of m k of None \<Rightarrow> None
            | Some infos \<Rightarrow> map_option snd (canonical_entry (k, infos)))"
  using assms
proof (induction m)
  case Nil
  then show ?case by (simp add: List.map_filter_simps)
next
  case (Cons e m)
  obtain k' infos where e: "e = (k', infos)" by (cases e)
  with Cons.prems have "infos \<noteq> []" by simp
  from canonical_entry_nonempty[OF this, of k'] obtain first where
    c: "canonical_entry (k', infos) = Some (k', first)" by blast
  from Cons have ih: "map_of (List.map_filter canonical_entry m) k =
           (case map_of m k of None \<Rightarrow> None
            | Some infos \<Rightarrow> map_option snd (canonical_entry (k, infos)))"
    by simp
  show ?case
    using e c ih by (simp add: List.map_filter_simps)
qed


lemma versionMap_entries_nonempty:
  "\<forall>e \<in> set (foldl collect_tag [] ts). snd e \<noteq> []"
proof
  fix e assume e: "e \<in> set (foldl collect_tag [] ts)"
  from versionMap_inv_final[of ts] have d: "distinct (map fst (foldl collect_tag [] ts))"
    and i2: "\<And>k infos. map_of (foldl collect_tag [] ts) k = Some infos \<Longrightarrow> infos \<noteq> []"
    unfolding versionMap_inv_def by blast+
  from e d have "map_of (foldl collect_tag [] ts) (fst e) = Some (snd e)"
    by simp
  from i2[OF this] show "snd e \<noteq> []" .
qed


lemma normalizeTags_versions_set:
  "set (versions (normalizeTags ts)) =
     {k. \<exists>t \<in> set ts. extractVersion t = Some k \<and> semver_parse k \<noteq> None}"
  using versionMap_keys[of ts] by (simp add: normalizeTags_def Let_def)

lemma normalizeTags_versions_distinct: "distinct (versions (normalizeTags ts))"
  using versionMap_inv_final[of ts] by (simp add: normalizeTags_def Let_def versionMap_inv_def)

lemma normalizeTags_versions_sorted:
  "sorted_wrt (\<lambda>a b. semver_compare a b \<le> 0) (versions (normalizeTags ts))"
proof -
  have "set (map fst (foldl collect_tag [] ts)) \<subseteq> {s. semver_parse s \<noteq> None}"
    unfolding versionMap_keys by blast
  from sorted_sort_by[OF semver_compare_total semver_compare_trans this]
  show ?thesis by (simp add: normalizeTags_def Let_def)
qed

lemma normalizeTags_entry:
  assumes "v \<in> set (versions (normalizeTags ts))"
  shows "\<exists>ti. map_of (tags (normalizeTags ts)) v = Some ti \<and> clean ti = v \<and>
           display ti = ''v'' @ v \<and> original ti \<in> set ts \<and>
           extractVersion (original ti) = Some v \<and>
           (\<forall>t \<in> set ts. extractVersion t = Some v \<longrightarrow>
              (isVPrefixed (original ti) \<and> \<not> isVPrefixed t) \<or>
              (isVPrefixed (original ti) = isVPrefixed t \<and> length (original ti) \<le> length t))"
proof -
  let ?vm = "foldl collect_tag [] ts"
  let ?mk = "\<lambda>t. \<lparr> original = t, clean = v, display = ''v'' @ v \<rparr>"
  from assms have "v \<in> set (map fst ?vm)"
    by (simp add: normalizeTags_def Let_def)
  then obtain infos where m: "map_of ?vm v = Some infos"
    by (metis map_of_eq_None_iff not_Some_eq set_map)
  from versionMap_inv_final[of ts] m have ne: "infos \<noteq> []"
    and infos: "infos = map ?mk (filter (\<lambda>t. extractVersion t = Some v) ts)"
    unfolding versionMap_inv_def by blast+
  from canonical_entry_nonempty[OF ne, of v] obtain first rest where
    s: "sort_by compareTagInfo infos = first # rest"
    and c: "canonical_entry (v, infos) = Some (v, first)"
    by blast
  from map_of_canonical_entries[OF versionMap_entries_nonempty, of ts v] m c
  have look: "map_of (tags (normalizeTags ts)) v = Some first"
    by (simp add: normalizeTags_def Let_def)
  have total: "\<forall>a \<in> set infos. \<forall>b \<in> set infos. compareTagInfo a b \<le> 0 \<or> compareTagInfo b a \<le> 0"
    using compareTagInfo_total by blast
  have trans: "\<forall>a \<in> set infos. \<forall>b \<in> set infos. \<forall>c \<in> set infos.
      compareTagInfo a b \<le> 0 \<longrightarrow> compareTagInfo b c \<le> 0 \<longrightarrow> compareTagInfo a c \<le> 0"
    using compareTagInfo_trans by blast
  from hd_sort_by_least[OF total trans s]
  have f: "first \<in> set infos" and least: "\<forall>y \<in> set infos. compareTagInfo first y \<le> 0"
    by simp_all
  from f infos obtain t0 where t0: "t0 \<in> set ts" "extractVersion t0 = Some v" "first = ?mk t0"
    by auto
  have "(isVPrefixed (original first) \<and> \<not> isVPrefixed t) \<or>
        (isVPrefixed (original first) = isVPrefixed t \<and> length (original first) \<le> length t)"
    if "t \<in> set ts" "extractVersion t = Some v" for t
  proof -
    from that infos have "?mk t \<in> set infos" by simp
    with least have "compareTagInfo first (?mk t) \<le> 0" by blast
    then show ?thesis by (simp add: compareTagInfo_le)
  qed
  with look t0 show ?thesis by auto
qed




subsection \<open>The version expression on its own matches\<close>

lemma not_isDigit_dot: "\<not> isDigit CHR ''.''"
  by code_simp

lemma not_isDigit_hyphen': "\<not> isDigit CHR ''-''"
  by code_simp

lemma not_isWordDot_hyphen: "\<not> isWordDot CHR ''-''"
  by code_simp

lemma isDigit_not_special:
  assumes "isDigit c"
  shows "c \<noteq> CHR ''-''" and "\<not> isLineTerminator c" and "c \<noteq> CHR ''.''"
  using assms by (auto simp: isDigit_def isLineTerminator_def)

lemma not_isLineTerminator_simps:
  "\<not> isLineTerminator CHR ''.''" "\<not> isLineTerminator CHR ''-''" "\<not> isLineTerminator CHR ''v''"
  by (simp_all add: isLineTerminator_def)

lemma takeWhile_digits_stop:
  assumes "allDigits a" and "r = [] \<or> \<not> isDigit (hd r)"
  shows "takeWhile isDigit (a @ r) = a" and "dropWhile isDigit (a @ r) = r"
proof -
  from assms(1) have all: "\<forall>x \<in> set a. isDigit x"
    by (simp add: allDigits_def list_all_iff)
  from assms(2) have "takeWhile isDigit r = []" and "dropWhile isDigit r = r"
    by (cases r; simp)+
  with all show "takeWhile isDigit (a @ r) = a" and "dropWhile isDigit (a @ r) = r"
    by (simp_all add: takeWhile_append2 dropWhile_append2)
qed

lemma main_version_at_built:
  assumes "allDigits a" and "allDigits b" and "allDigits c" and "r = [] \<or> \<not> isDigit (hd r)"
  shows "main_version_at (a @ ''.'' @ b @ ''.'' @ c @ r) = Some (a @ ''.'' @ b @ ''.'' @ c, r)"
proof -
  have 1: "takeWhile isDigit (a @ CHR ''.'' # b @ CHR ''.'' # c @ r) = a"
    and 2: "dropWhile isDigit (a @ CHR ''.'' # b @ CHR ''.'' # c @ r) = CHR ''.'' # b @ CHR ''.'' # c @ r"
    using takeWhile_digits_stop[OF assms(1), of "CHR ''.'' # b @ CHR ''.'' # c @ r"] not_isDigit_dot
    by simp_all
  have 3: "takeWhile isDigit (b @ CHR ''.'' # c @ r) = b"
    and 4: "dropWhile isDigit (b @ CHR ''.'' # c @ r) = CHR ''.'' # c @ r"
    using takeWhile_digits_stop[OF assms(2), of "CHR ''.'' # c @ r"] not_isDigit_dot
    by simp_all
  have 5: "takeWhile isDigit (c @ r) = c" and 6: "dropWhile isDigit (c @ r) = r"
    using takeWhile_digits_stop[OF assms(3,4)] by simp_all
  from assms(1-3) have ne: "a \<noteq> []" "b \<noteq> []" "c \<noteq> []"
    by (auto simp: allDigits_def)
  show ?thesis
    using ne by (simp add: main_version_at_def Let_def 1 2 3 4 5 6)
qed

lemma main_version_at_shape:
  assumes "main_version_at s = Some (m, r)"
  shows "\<exists>a b c. m = a @ ''.'' @ b @ ''.'' @ c \<and> allDigits a \<and> allDigits b \<and> allDigits c
           \<and> s = m @ r \<and> (r = [] \<or> \<not> isDigit (hd r))"
proof -
  from main_version_at_Some[OF assms] obtain a b c where
    m: "m = a @ ''.'' @ b @ ''.'' @ c" "allDigits a" "allDigits b" "allDigits c" "s = m @ r"
    by blast
  from assms have "\<exists>x. r = dropWhile isDigit x"
    by (auto simp: main_version_at_def Let_def split: if_splits list.splits)
  then have "r = [] \<or> \<not> isDigit (hd r)"
    using hd_dropWhile by (metis)
  with m show ?thesis by blast
qed

lemma main_version_chars:
  assumes "m = a @ ''.'' @ b @ ''.'' @ c" and "allDigits a" and "allDigits b" and "allDigits c"
  shows "CHR ''-'' \<notin> set m" and "\<forall>x \<in> set m. \<not> isLineTerminator x"
proof -
  have d: "isDigit x" if "x \<in> set a \<union> set b \<union> set c" for x
    using that assms(2-4) by (auto simp: allDigits_def list_all_iff)
  have s: "set m = set a \<union> set b \<union> set c \<union> {CHR ''.''}"
    using assms(1) by auto
  show "CHR ''-'' \<notin> set m"
  proof
    assume "CHR ''-'' \<in> set m"
    with s have "CHR ''-'' \<in> set a \<union> set b \<union> set c" by simp
    from d[OF this] not_isDigit_hyphen' show False by simp
  qed
  show "\<forall>x \<in> set m. \<not> isLineTerminator x"
  proof
    fix x assume "x \<in> set m"
    with s have "x = CHR ''.'' \<or> x \<in> set a \<union> set b \<union> set c" by auto
    then show "\<not> isLineTerminator x"
      using d isDigit_not_special(2) not_isLineTerminator_simps(1) by blast
  qed
qed

lemma main_version_at_extend:
  assumes "main_version_at s = Some (m, r)"
  shows "main_version_at (s @ rest) \<noteq> None"
proof -
  from main_version_at_shape[OF assms] obtain a b c where
    m: "m = a @ ''.'' @ b @ ''.'' @ c" and d: "allDigits a" "allDigits b" "allDigits c"
    and s: "s = m @ r" and r: "r = [] \<or> \<not> isDigit (hd r)"
    by blast
  show ?thesis
  proof (cases "r = []")
    case False
    with r have "r @ rest = [] \<or> \<not> isDigit (hd (r @ rest))" by simp
    from main_version_at_built[OF d this] m s show ?thesis by simp
  next
    case True
    let ?c = "c @ takeWhile isDigit rest"
    have c': "allDigits ?c"
      using d(3) by (auto simp: allDigits_def list_all_iff dest: set_takeWhileD)
    have "dropWhile isDigit rest = [] \<or> \<not> isDigit (hd (dropWhile isDigit rest))"
      using hd_dropWhile by (metis)
    from main_version_at_built[OF d(1,2) c' this] m s True show ?thesis by simp
  qed
qed

lemma version_text_at_cases:
  assumes "version_text_at w = Some c"
  obtains (plain) m r where "main_version_at w = Some (m, r)" "c = m"
  | (pre) m r' where "main_version_at w = Some (m, CHR ''-'' # r')"
      "takeWhile isWordDot r' \<noteq> []" "c = m @ ''-'' @ takeWhile isWordDot r'"
  using assms
  by (auto simp: version_text_at_def split: option.splits list.splits if_splits)

lemma version_text_at_self:
  assumes "version_text_at w = Some c"
  shows "version_text_at c = Some c"
  using assms
proof (cases rule: version_text_at_cases)
  case (plain m r)
  from main_version_at_shape[OF plain(1)] obtain a b c' where
    m: "m = a @ ''.'' @ b @ ''.'' @ c'" and d: "allDigits a" "allDigits b" "allDigits c'"
    by blast
  from main_version_at_built[OF d, of "[]"] m have "main_version_at m = Some (m, [])"
    by simp
  with plain(2) show ?thesis by (simp add: version_text_at_def)
next
  case (pre m r')
  let ?p = "takeWhile isWordDot r'"
  from main_version_at_shape[OF pre(1)] obtain a b c' where
    m: "m = a @ ''.'' @ b @ ''.'' @ c'" and d: "allDigits a" "allDigits b" "allDigits c'"
    by blast
  have "CHR ''-'' # ?p = [] \<or> \<not> isDigit (hd (CHR ''-'' # ?p))"
    using not_isDigit_hyphen' by simp
  from main_version_at_built[OF d this] m
  have mv: "main_version_at (m @ CHR ''-'' # ?p) = Some (m, CHR ''-'' # ?p)"
    by simp
  have "takeWhile isWordDot ?p = ?p"
    by (simp add: takeWhile_eq_all_conv)
  with mv pre(2,3) show ?thesis by (simp add: version_text_at_def)
qed

lemma version_text_at_extend:
  assumes "version_text_at p = Some x"
  shows "version_text_at (p @ rest) \<noteq> None"
proof -
  from assms obtain m r where "main_version_at p = Some (m, r)"
    by (auto simp: version_text_at_def split: option.splits)
  from main_version_at_extend[OF this, of rest] show ?thesis
    by (auto simp: version_text_at_def split: option.splits list.splits)
qed

lemma version_at_extend:
  assumes "version_at p = Some x"
  shows "version_at (p @ rest) \<noteq> None"
proof -
  from assms consider (v) p' where "p = CHR ''v'' # p'" "version_text_at p' = Some x"
    | (plain) "version_text_at p = Some x"
    by (auto simp: version_at_def split: list.splits if_splits option.splits)
  then show ?thesis
  proof cases
    case v
    from version_text_at_extend[OF v(2), of rest] v(1) show ?thesis
      by (auto simp: version_at_def split: option.splits)
  next
    case plain
    from version_text_at_extend[OF plain, of rest] show ?thesis
      by (auto simp: version_at_def split: option.splits list.splits)
  qed
qed

subsection \<open>The prefix group\<close>

lemma prefixed_version_at_no_hyphen:
  assumes "CHR ''-'' \<notin> set s"
  shows "prefixed_version_at s = None"
  using assms by (induction s) (auto split: option.splits)

lemma prefixed_version_at_first_hyphen:
  assumes "CHR ''-'' \<notin> set y" and "\<forall>x \<in> set y. \<not> isLineTerminator x"
  shows "prefixed_version_at (y @ CHR ''-'' # z) =
           (case prefixed_version_at z of Some m \<Rightarrow> Some m | None \<Rightarrow> version_at z)"
  using assms
  by (induction y) (auto simp: not_isLineTerminator_simps split: option.splits)

lemma prefixed_version_at_found:
  assumes "prefixed_version_at u = Some c"
  shows "\<exists>w. version_at w = Some c \<and> prefixed_version_at w = None"
  using assms
proof (induction u)
  case Nil
  then show ?case by simp
next
  case (Cons ch cs)
  show ?case
  proof (cases "\<not> isLineTerminator ch \<and> prefixed_version_at cs \<noteq> None")
    case True
    with Cons.prems have "prefixed_version_at cs = Some c"
      by (auto split: option.splits)
    with Cons.IH show ?thesis by blast
  next
    case False
    with Cons.prems have h: "ch = CHR ''-''" and v: "version_at cs = Some c"
      by (auto split: option.splits if_splits)
    from h False have "prefixed_version_at cs = None"
      by (simp add: not_isLineTerminator_simps)
    with v show ?thesis by blast
  qed
qed

lemma extract_search_found:
  assumes "extract_search t = Some c"
  shows "\<exists>u. extract_at u = Some c"
  using assms
  by (induction t) (auto split: option.splits)

lemma extract_at_found:
  assumes "extract_at u = Some c"
  shows "\<exists>w. version_at w = Some c \<and> prefixed_version_at w = None"
  using assms prefixed_version_at_found
  by (auto simp: extract_at_def split: option.splits)

lemma version_at_text:
  assumes "version_at w = Some c" and "prefixed_version_at w = None"
  shows "\<exists>w'. version_text_at w' = Some c \<and> prefixed_version_at w' = None"
proof -
  from assms(1) consider (v) w' where "w = CHR ''v'' # w'" "version_text_at w' = Some c"
    | (plain) "version_text_at w = Some c"
    by (auto simp: version_at_def split: list.splits if_splits option.splits)
  then show ?thesis
  proof cases
    case v
    from assms(2) v(1) have "prefixed_version_at w' = None"
      by (auto simp: not_isLineTerminator_simps split: option.splits)
    with v(2) show ?thesis by blast
  next
    case plain
    with assms(2) show ?thesis by blast
  qed
qed

lemma extractVersion_display:
  assumes "extractVersion t = Some c"
  shows "extractVersion (''v'' @ c) = Some c"
proof -
  from assms obtain u where "extract_at u = Some c"
    using extract_search_found by (auto simp: extractVersion_def)
  from extract_at_found[OF this] obtain w where
    "version_at w = Some c" "prefixed_version_at w = None" by blast
  from version_at_text[OF this] obtain w' where
    vt: "version_text_at w' = Some c" and pn: "prefixed_version_at w' = None" by blast
  have va: "version_at (CHR ''v'' # c) = Some c"
    using version_text_at_self[OF vt] by (simp add: version_at_def)
  have "prefixed_version_at (CHR ''v'' # c) = None"
    using vt
  proof (cases rule: version_text_at_cases)
    case (plain m r)
    from main_version_at_shape[OF plain(1)] obtain a b c' where
      "m = a @ ''.'' @ b @ ''.'' @ c'" "allDigits a" "allDigits b" "allDigits c'"
      by blast
    from main_version_chars(1)[OF this] plain(2) have "CHR ''-'' \<notin> set (CHR ''v'' # c)"
      by simp
    then show ?thesis by (rule prefixed_version_at_no_hyphen)
  next
    case (pre m r')
    let ?p = "takeWhile isWordDot r'"
    from main_version_at_shape[OF pre(1)] obtain a b c' where
      m: "m = a @ ''.'' @ b @ ''.'' @ c'" "allDigits a" "allDigits b" "allDigits c'"
      and w': "w' = m @ CHR ''-'' # r'"
      by blast
    from main_version_chars[OF m] have nh: "CHR ''-'' \<notin> set m"
      and nl: "\<forall>x \<in> set m. \<not> isLineTerminator x" by simp_all
    from pn w' prefixed_version_at_first_hyphen[OF nh nl, of r']
    have "version_at r' = None"
      by (auto split: option.splits)
    moreover have "r' = ?p @ dropWhile isWordDot r'" by simp
    ultimately have vp: "version_at ?p = None"
      using version_at_extend[of ?p _ "dropWhile isWordDot r'"] by (metis not_Some_eq)
    have "CHR ''-'' \<notin> set ?p"
      using not_isWordDot_hyphen by (metis set_takeWhileD)
    then have pp: "prefixed_version_at ?p = None"
      by (rule prefixed_version_at_no_hyphen)
    have nh': "CHR ''-'' \<notin> set (CHR ''v'' # m)" using nh by simp
    have nl': "\<forall>x \<in> set (CHR ''v'' # m). \<not> isLineTerminator x"
      using nl by (simp add: not_isLineTerminator_simps)
    from prefixed_version_at_first_hyphen[OF nh' nl', of ?p] vp pp pre(3)
    show ?thesis by simp
  qed
  with va show ?thesis
    by (simp add: extractVersion_def extract_at_def)
qed

lemma map_filter_all_Some:
  assumes "\<forall>x \<in> set xs. f x = Some (g x)"
  shows "List.map_filter f xs = map g xs"
  using assms by (induction xs) (simp_all add: List.map_filter_simps)

lemma collect_tag_valid:
  assumes "extractVersion t = Some k" and "semver_parse k \<noteq> None"
  shows "collect_tag vm t = map_push k \<lparr> original = t, clean = k, display = ''v'' @ k \<rparr> vm"
proof -
  from assms(2) have "k \<noteq> []" using semver_parse_Nil by auto
  with assms show ?thesis by (auto simp: collect_tag_def)
qed

lemma versionMap_fresh_keys:
  assumes "\<forall>k \<in> set ks. extractVersion (f k) = Some k \<and> semver_parse k \<noteq> None"
    and "distinct ks" and "set ks \<inter> fst ` set vm = {}"
  shows "map fst (foldl collect_tag vm (map f ks)) = map fst vm @ ks"
  using assms
proof (induction ks arbitrary: vm)
  case Nil
  then show ?case by simp
next
  case (Cons k ks)
  let ?vm = "map_push k \<lparr> original = f k, clean = k, display = ''v'' @ k \<rparr> vm"
  from Cons.prems(1) have step: "collect_tag vm (f k) = ?vm"
    using collect_tag_valid by simp
  from Cons.prems(3) have fresh: "k \<notin> fst ` set vm" by auto
  then have keys: "map fst ?vm = map fst vm @ [k]"
    by (simp add: map_fst_map_push)
  then have "fst ` set ?vm = insert k (fst ` set vm)"
    by (metis (no_types, lifting) Un_insert_right append_Nil2 list.simps(15) set_append set_map)
  with Cons.prems(2,3) have disj: "set ks \<inter> fst ` set ?vm = {}" by auto
  from Cons.prems(1,2) have "\<forall>k \<in> set ks. extractVersion (f k) = Some k \<and> semver_parse k \<noteq> None"
    and "distinct ks" by simp_all
  from Cons.IH[OF this disj] keys step show ?case by simp
qed

lemma normalizeTags_display_tags:
  "List.map_filter (\<lambda>v. map_option display (map_of (tags (normalizeTags ts)) v))
     (versions (normalizeTags ts)) = map (\<lambda>v. CHR ''v'' # v) (versions (normalizeTags ts))"
proof (rule map_filter_all_Some, rule ballI)
  fix v assume "v \<in> set (versions (normalizeTags ts))"
  from normalizeTags_entry[OF this]
  show "map_option display (map_of (tags (normalizeTags ts)) v) = Some (CHR ''v'' # v)"
    by auto
qed

lemma normalizeTags_again:
  "versions (normalizeTags (map (\<lambda>v. CHR ''v'' # v) (versions (normalizeTags ts))))
     = versions (normalizeTags ts)"
proof -
  let ?vs = "versions (normalizeTags ts)"
  have valid: "\<forall>k \<in> set ?vs. extractVersion (CHR ''v'' # k) = Some k \<and> semver_parse k \<noteq> None"
  proof
    fix k assume "k \<in> set ?vs"
    then obtain t where "extractVersion t = Some k" and p: "semver_parse k \<noteq> None"
      unfolding normalizeTags_versions_set by blast
    from extractVersion_display[OF this(1)] p
    show "extractVersion (CHR ''v'' # k) = Some k \<and> semver_parse k \<noteq> None" by simp
  qed
  have "map fst (foldl collect_tag [] (map (\<lambda>v. CHR ''v'' # v) ?vs)) = map fst [] @ ?vs"
    using versionMap_fresh_keys[where f = "\<lambda>v. CHR ''v'' # v" and vm = "[]",
        OF valid normalizeTags_versions_distinct]
    by simp
  then have "versions (normalizeTags (map (\<lambda>v. CHR ''v'' # v) ?vs)) = sort_by semver_compare ?vs"
    by (simp add: normalizeTags_def Let_def)
  also have "\<dots> = ?vs"
    by (rule sort_by_sorted_id[OF normalizeTags_versions_sorted])
  finally show ?thesis .
qed

text \<open>
  Claim C9. Normalizing the canonical display tags of a normalization, taken in the order
  of its version sequence, gives the same version sequence again, and every version keeps
  its display tag.
\<close>

theorem normalizeTags_idempotent:
  "(let tm = normalizeTags ts;
        displayTags = List.map_filter (\<lambda>v. map_option display (map_of (tags tm) v)) (versions tm);
        tm' = normalizeTags displayTags
    in length displayTags = length (versions tm)
       \<and> versions tm' = versions tm
       \<and> (\<forall>v \<in> set (versions tm).
            map_of (tags tm) v \<noteq> None \<and>
            map_option display (map_of (tags tm') v) = map_option display (map_of (tags tm) v)))"
proof -
  let ?tm = "normalizeTags ts"
  let ?ds = "map (\<lambda>v. CHR ''v'' # v) (versions ?tm)"
  let ?tm' = "normalizeTags ?ds"
  have v: "versions ?tm' = versions ?tm"
    by (rule normalizeTags_again)
  have "map_of (tags ?tm) x \<noteq> None \<and>
        map_option display (map_of (tags ?tm') x) = map_option display (map_of (tags ?tm) x)"
    if "x \<in> set (versions ?tm)" for x
  proof -
    from normalizeTags_entry[OF that] obtain ti where
      1: "map_of (tags ?tm) x = Some ti" "display ti = ''v'' @ x" by blast
    from that v have "x \<in> set (versions ?tm')" by simp
    from normalizeTags_entry[OF this] obtain ti' where
      2: "map_of (tags ?tm') x = Some ti'" "display ti' = ''v'' @ x" by blast
    from 1 2 show ?thesis by simp
  qed
  with v show ?thesis
    unfolding Let_def normalizeTags_display_tags by simp
qed

text \<open>
  Three dirty tags: their display tags \<open>v1.0.0-rc.1\<close>, \<open>v1.0.0\<close>, \<open>v1.40.0\<close> normalize to the
  same three versions.
\<close>

theorem normalizeTags_idempotent_witness:
  "List.map_filter (\<lambda>v. map_option display
       (map_of (tags (normalizeTags [''old-prefix-v1.40.0'', ''v1.0.0-rc.1'', ''release-1.0.0''])) v))
     (versions (normalizeTags [''old-prefix-v1.40.0'', ''v1.0.0-rc.1'', ''release-1.0.0'']))
   = [''v1.0.0-rc.1'', ''v1.0.0'', ''v1.40.0'']
   \<and> versions (normalizeTags [''old-prefix-v1.40.0'', ''v1.0.0-rc.1'', ''release-1.0.0''])
       = [''1.0.0-rc.1'', ''1.0.0'', ''1.40.0'']
   \<and> versions (normalizeTags [''v1.0.0-rc.1'', ''v1.0.0'', ''v1.40.0''])
       = versions (normalizeTags [''old-prefix-v1.40.0'', ''v1.0.0-rc.1'', ''release-1.0.0''])"
proof -
  let ?ts = "[''old-prefix-v1.40.0'', ''v1.0.0-rc.1'', ''release-1.0.0'']"
  have d: "List.map_filter (\<lambda>v. map_option display (map_of (tags (normalizeTags ?ts)) v))
     (versions (normalizeTags ?ts)) = [''v1.0.0-rc.1'', ''v1.0.0'', ''v1.40.0'']"
    by code_simp
  have vs: "versions (normalizeTags ?ts) = [''1.0.0-rc.1'', ''1.0.0'', ''1.40.0'']"
    by code_simp
  from normalizeTags_idempotent[of ?ts]
  have "versions (normalizeTags (List.map_filter
           (\<lambda>v. map_option display (map_of (tags (normalizeTags ?ts)) v))
           (versions (normalizeTags ?ts)))) = versions (normalizeTags ?ts)"
    unfolding Let_def by blast
  with d vs show ?thesis by simp
qed


end
